theory Spec2Isabelle
  imports Complex_Main "HOL-Library.Multiset"
begin

section \<open>The article-sourcing hook \<open>useWikiArticles\<close>\<close>

text \<open>
  A shallow embedding of \<^verbatim>\<open>frontend/src/hooks/useWikiArticles.ts\<close>: the in-place
  shuffle, the category member resolver with its per-key cache, the detail fetcher with
  its validation filter, the selection of a batch of unseen page ids and the consumer
  call that swaps the buffer into the displayed list.

  Conventions. React state (\<^verbatim>\<open>articles\<close>, \<^verbatim>\<open>loading\<close>, \<^verbatim>\<open>buffer\<close>) and the mutable refs
  of the hook are the fields of one record that every operation takes and returns; a
  \<^verbatim>\<open>setState\<close> is the field update. A JavaScript value that may be \<^verbatim>\<open>undefined\<close> is an
  \<open>option\<close>. Every \<^verbatim>\<open>await\<close> on the network is an input of the model: what the remote
  call delivered (\<open>Rejected\<close> when \<^verbatim>\<open>fetch\<close> or \<^verbatim>\<open>response.json()\<close> throws). Every
  evaluation of \<^verbatim>\<open>Math.floor(Math.random() * (i + 1))\<close> is an input as well: the list of
  index draws, in the order the loop consumes them.
\<close>

subsection \<open>Constants\<close>

definition BATCH_SIZE :: nat where
  "BATCH_SIZE = 40"

definition SUBCAT_SAMPLE_SIZE :: nat where
  "SUBCAT_SAMPLE_SIZE = 5"

subsection \<open>\<^verbatim>\<open>shuffleArray\<close>\<close>

text \<open>
  \<^verbatim>\<open>for (let i = array.length - 1; i > 0; i--) { const j = ...; [array[i], array[j]] = [array[j], array[i]]; }\<close>
  The loop counter is the first argument; the head of the draw list is the \<^verbatim>\<open>j\<close> of the
  current iteration. The destructuring assignment reads both cells first and then writes
  \<^verbatim>\<open>array[i]\<close> before \<^verbatim>\<open>array[j]\<close>. The second equation (no draw left while the loop
  still runs) is not a run of the program: \<^verbatim>\<open>Math.random\<close> always answers.
\<close>

fun shuffle_loop :: "nat \<Rightarrow> nat list \<Rightarrow> 'a list \<Rightarrow> 'a list" where
  "shuffle_loop 0 js array = array"
| "shuffle_loop (Suc i) [] array = array"
| "shuffle_loop (Suc i) (j # js) array =
     shuffle_loop i js (array[Suc i := array ! j, j := array ! Suc i])"

definition shuffleArray :: "nat list \<Rightarrow> 'a list \<Rightarrow> 'a list" where
  "shuffleArray js array = shuffle_loop (length array - 1) js array"

text \<open>
  The draw sequences a loop that starts at index \<open>i\<close> can consume: one draw per
  iteration, and the draw of iteration \<open>i\<close> is \<^verbatim>\<open>Math.floor(Math.random() * (i + 1))\<close>, an
  index between \<open>0\<close> and \<open>i\<close>, since \<^verbatim>\<open>Math.random()\<close> lies in \<open>[0, 1)\<close>.
\<close>

fun random_draws :: "nat \<Rightarrow> nat list \<Rightarrow> bool" where
  "random_draws 0 js = (js = [])"
| "random_draws (Suc i) [] = False"
| "random_draws (Suc i) (j # js) = (j \<le> Suc i \<and> random_draws i js)"

text \<open>
  Independent uniform draws: the draw of iteration \<open>i\<close> takes each of its \<open>i + 1\<close> values
  with probability \<open>1 / (i + 1)\<close>, whatever the other draws are. The probability of a
  sequence of draws is the product, and the probability that the shuffle of an array
  gives a result is the sum over the sequences that give it.
\<close>

fun draws_probability :: "nat \<Rightarrow> nat list \<Rightarrow> rat" where
  "draws_probability 0 js = (if js = [] then 1 else 0)"
| "draws_probability (Suc i) [] = 0"
| "draws_probability (Suc i) (j # js) =
     (if j \<le> Suc i then 1 / of_nat (Suc (Suc i)) * draws_probability i js else 0)"

definition shuffle_probability :: "'a list \<Rightarrow> 'a list \<Rightarrow> rat" where
  "shuffle_probability array result =
     sum (draws_probability (length array - 1))
       {js. random_draws (length array - 1) js \<and> shuffleArray js array = result}"

text \<open>
  Steps 3 and 4 of \<^verbatim>\<open>fetchAndProcessArticles\<close>:
  \<^verbatim>\<open>allSubcatNames = shuffleArray(allSubcatNames); subcatSample = allSubcatNames.slice(0, SUBCAT_SAMPLE_SIZE)\<close>.
\<close>

definition subcatSample :: "nat list \<Rightarrow> 'a list \<Rightarrow> 'a list" where
  "subcatSample js allSubcatNames = take SUBCAT_SAMPLE_SIZE (shuffleArray js allSubcatNames)"

subsection \<open>API responses\<close>

record categoryMember =
  m_pageid :: int
  m_ns :: int
  m_title :: string

record apiError =
  error_code :: string
  error_info :: string
  error_star :: string

text \<open>
  \<^verbatim>\<open>CategoryMembersApiResponse\<close>, read through the three paths the code uses:
  \<^verbatim>\<open>data.error\<close>, \<^verbatim>\<open>data.query?.categorymembers\<close> and \<^verbatim>\<open>data.continue?.cmcontinue\<close>.
\<close>

record categoryMembersApiResponse =
  data_error :: "apiError option"
  data_categorymembers :: "categoryMember list option"
  data_cmcontinue :: "string option"

record pageThumbnail =
  thumbnail_source :: "string option"
  thumbnail_width :: int
  thumbnail_height :: int

text \<open>A page of the detail response (\<^verbatim>\<open>page: any\<close>): every field may be absent.\<close>

record pageInfo =
  page_pageid :: "int option"
  page_title :: "string option"
  page_extract :: "string option"
  page_canonicalurl :: "string option"
  page_varianttitles :: "(string \<rightharpoonup> string) option"
  page_thumbnail :: "pageThumbnail option"

text \<open>
  \<^verbatim>\<open>PageDetailsApiResponse\<close>: \<^verbatim>\<open>data.error\<close> and \<^verbatim>\<open>Object.values(data.query?.pages)\<close> in
  enumeration order (\<open>None\<close> when \<^verbatim>\<open>query\<close> or \<^verbatim>\<open>pages\<close> is absent).
\<close>

record pageDetailsApiResponse =
  details_error :: "apiError option"
  details_pages :: "pageInfo list option"

record wikiArticle =
  article_title :: string
  article_displaytitle :: string
  article_extract :: string
  article_pageid :: int
  article_thumbnail :: "pageThumbnail option"
  article_url :: string

text \<open>What an awaited remote call delivers.\<close>

datatype 'r fetched = Rejected | Resolved 'r

subsection \<open>The state of the hook\<close>

datatype memberType = Page | Subcat

datatype fetchStatus = Pending | Done | Error

text \<open>\<^verbatim>\<open>let allMembers: (number | string)[]\<close>; the casts to \<^verbatim>\<open>number[]\<close> and \<^verbatim>\<open>string[]\<close> do nothing at run time.\<close>

datatype member = Num int | Str string

text \<open>A request to the listing endpoint: \<^verbatim>\<open>cmtitle\<close>, \<^verbatim>\<open>cmtype\<close> and the optional \<^verbatim>\<open>cmcontinue\<close>.\<close>

type_synonym request = "string \<times> memberType \<times> string option"

text \<open>
  A cache entry is \<open>None\<close> when the property is \<^verbatim>\<open>undefined\<close>, \<open>Some None\<close> when it is
  \<^verbatim>\<open>null\<close> and \<open>Some (Some xs)\<close> when it is an array. The field \<open>requests\<close> is not a
  variable of the program: it records every call of \<^verbatim>\<open>fetch\<close> on the listing endpoint.
\<close>

record hook =
  articles :: "wikiArticle list"
  loading :: bool
  buffer :: "wikiArticle list"
  categoryPageIds :: "string \<rightharpoonup> member list option"
  categorySubcats :: "string \<rightharpoonup> member list option"
  shownPageIds :: "int set"
  fetchingStatus :: "string \<rightharpoonup> fetchStatus"
  requests :: "request list"

definition initial_hook :: hook where
  "initial_hook = \<lparr> articles = [], loading = False, buffer = [],
     categoryPageIds = Map.empty, categorySubcats = Map.empty, shownPageIds = {},
     fetchingStatus = Map.empty, requests = [] \<rparr>"

subsection \<open>\<^verbatim>\<open>fetchCategoryMembers\<close>\<close>

definition cacheRef :: "memberType \<Rightarrow> hook \<Rightarrow> (string \<rightharpoonup> member list option)" where
  "cacheRef memberType s = (case memberType of Page \<Rightarrow> categoryPageIds s | Subcat \<Rightarrow> categorySubcats s)"

definition cacheKey :: "string \<Rightarrow> memberType \<Rightarrow> string" where
  "cacheKey categoryName memberType =
     categoryName @ ''-'' @ (case memberType of Page \<Rightarrow> ''page'' | Subcat \<Rightarrow> ''subcat'')"

definition storeMembers :: "memberType \<Rightarrow> string \<Rightarrow> member list option \<Rightarrow> hook \<Rightarrow> hook" where
  "storeMembers memberType categoryName v s =
     (case memberType of
        Page \<Rightarrow> s\<lparr>categoryPageIds := (categoryPageIds s)(categoryName \<mapsto> v)\<rparr>
      | Subcat \<Rightarrow> s\<lparr>categorySubcats := (categorySubcats s)(categoryName \<mapsto> v)\<rparr>)"

definition setStatus :: "string \<Rightarrow> fetchStatus \<Rightarrow> hook \<Rightarrow> hook" where
  "setStatus key st s = s\<lparr>fetchingStatus := (fetchingStatus s)(key \<mapsto> st)\<rparr>"

definition issue :: "request \<Rightarrow> hook \<Rightarrow> hook" where
  "issue r s = s\<lparr>requests := requests s @ [r]\<rparr>"

text \<open>
  The function is \<^verbatim>\<open>async\<close>: it runs until it returns or reaches
  \<^verbatim>\<open>await fetch(...)\<close>, where other code may run before the response arrives. A call
  suspended there is its local variables; the pending \<^verbatim>\<open>cmcontinue\<close> is in the request
  it has issued.
\<close>

record call =
  call_categoryName :: string
  call_memberType :: memberType
  call_allMembers :: "member list"

datatype step = Returned "member list option" hook | Awaiting call hook

text \<open>The \<^verbatim>\<open>catch\<close> block and the \<^verbatim>\<open>finally\<close> block.\<close>

definition fcm_catch :: "string \<Rightarrow> memberType \<Rightarrow> hook \<Rightarrow> hook" where
  "fcm_catch categoryName memberType s =
     storeMembers memberType categoryName None
       (setStatus (cacheKey categoryName memberType) Error s)"

definition fcm_finally :: "string \<Rightarrow> memberType \<Rightarrow> hook \<Rightarrow> hook" where
  "fcm_finally categoryName memberType s =
     (if fetchingStatus s (cacheKey categoryName memberType) = Some Pending
      then setStatus (cacheKey categoryName memberType) Error s else s)"

text \<open>From the call to the first \<^verbatim>\<open>await\<close>: the cache test, the pending test, the first request.\<close>

definition fcm_start :: "string \<Rightarrow> memberType \<Rightarrow> hook \<Rightarrow> step" where
  "fcm_start categoryName memberType s =
     (let key = cacheKey categoryName memberType;
          fetch = (if fetchingStatus s key = Some Pending then Returned None s
                   else Awaiting
                     \<lparr> call_categoryName = categoryName, call_memberType = memberType,
                       call_allMembers = [] \<rparr>
                     (issue (categoryName, memberType, None) (setStatus key Pending s)))
      in case cacheRef memberType s categoryName of
           None \<Rightarrow> fetch
         | Some cached \<Rightarrow>
             if fetchingStatus s key \<noteq> Some Error then Returned cached s else fetch)"

text \<open>From one response to the next \<^verbatim>\<open>await\<close> or to the return: one pass of the \<^verbatim>\<open>do ... while\<close> body.\<close>

definition fcm_resume :: "call \<Rightarrow> categoryMembersApiResponse fetched \<Rightarrow> hook \<Rightarrow> step" where
  "fcm_resume c response s =
     (let categoryName = call_categoryName c; memberType = call_memberType c;
          failed = Returned None
            (fcm_finally categoryName memberType (fcm_catch categoryName memberType s))
      in case response of
           Rejected \<Rightarrow> failed
         | Resolved data \<Rightarrow>
             if data_error data \<noteq> None then failed
             else
               let members = (case data_categorymembers data of None \<Rightarrow> [] | Some ms \<Rightarrow> ms);
                   extractedData = (case memberType of
                       Page \<Rightarrow> map (\<lambda>m. Num (m_pageid m)) members
                     | Subcat \<Rightarrow> map (\<lambda>m. Str (m_title m)) members);
                   allMembers = call_allMembers c @ extractedData;
                   cmcontinue = (case data_cmcontinue data of
                       None \<Rightarrow> None
                     | Some t \<Rightarrow> if t = [] then None else Some t)
               in (case cmcontinue of
                     Some t \<Rightarrow>
                       Awaiting (c\<lparr>call_allMembers := allMembers\<rparr>)
                         (issue (categoryName, memberType, Some t) s)
                   | None \<Rightarrow>
                       Returned (Some allMembers)
                         (fcm_finally categoryName memberType
                            (setStatus (cacheKey categoryName memberType) Done
                               (storeMembers memberType categoryName (Some allMembers) s)))))"

text \<open>
  A call run without interleaving, on the responses the network delivers in order. When
  the responses end while the call still awaits one, the call never returns: \<open>None\<close>.
\<close>

fun fcm_run :: "step \<Rightarrow> categoryMembersApiResponse fetched list \<Rightarrow> (member list option \<times> hook) option" where
  "fcm_run (Returned v s) responses = Some (v, s)"
| "fcm_run (Awaiting c s) [] = None"
| "fcm_run (Awaiting c s) (r # responses) = fcm_run (fcm_resume c r s) responses"

definition fetchCategoryMembers ::
  "string \<Rightarrow> memberType \<Rightarrow> categoryMembersApiResponse fetched list \<Rightarrow> hook
     \<Rightarrow> (member list option \<times> hook) option" where
  "fetchCategoryMembers categoryName memberType responses s =
     fcm_run (fcm_start categoryName memberType s) responses"

text \<open>
  A list is cached under a key only with status \<open>Done\<close> for that key. It holds
  initially and every step of every call keeps it, for every key.
\<close>

definition key_consistent :: "string \<Rightarrow> memberType \<Rightarrow> hook \<Rightarrow> bool" where
  "key_consistent categoryName memberType s =
     (case cacheRef memberType s categoryName of
        Some (Some xs) \<Rightarrow> fetchingStatus s (cacheKey categoryName memberType) = Some Done
      | _ \<Rightarrow> True)"

text \<open>The state a step leaves.\<close>

fun step_hook :: "step \<Rightarrow> hook" where
  "step_hook (Returned v s) = s"
| "step_hook (Awaiting c s) = s"

subsection \<open>Sample responses of the listing endpoint\<close>

definition physics_page1 :: "categoryMembersApiResponse fetched" where
  "physics_page1 = Resolved \<lparr> data_error = None,
     data_categorymembers = Some [\<lparr> m_pageid = 1, m_ns = 0, m_title = ''Force'' \<rparr>,
                                  \<lparr> m_pageid = 2, m_ns = 0, m_title = ''Mass'' \<rparr>],
     data_cmcontinue = Some ''page|2'' \<rparr>"

definition physics_page2 :: "categoryMembersApiResponse fetched" where
  "physics_page2 = Resolved \<lparr> data_error = None,
     data_categorymembers = Some [\<lparr> m_pageid = 3, m_ns = 0, m_title = ''Work'' \<rparr>],
     data_cmcontinue = None \<rparr>"

definition api_error_reply :: "categoryMembersApiResponse fetched" where
  "api_error_reply = Resolved \<lparr> data_error = Some \<lparr> error_code = ''invalidcategory'',
       error_info = ''The category name you entered is not valid'', error_star = [] \<rparr>,
     data_categorymembers = None, data_cmcontinue = None \<rparr>"

subsection \<open>\<^verbatim>\<open>fetchArticleDetails\<close>\<close>

text \<open>
  JavaScript truthiness of an optional number and of an optional string: \<^verbatim>\<open>undefined\<close>,
  \<^verbatim>\<open>0\<close> and the empty string are falsy.
\<close>

definition truthy_number :: "int option \<Rightarrow> bool" where
  "truthy_number v = (case v of None \<Rightarrow> False | Some n \<Rightarrow> n \<noteq> 0)"

definition truthy_string :: "string option \<Rightarrow> bool" where
  "truthy_string v = (case v of None \<Rightarrow> False | Some t \<Rightarrow> t \<noteq> [])"

text \<open>
  The callback of \<^verbatim>\<open>.map\<close>: \<^verbatim>\<open>null\<close> when the basic validation fails, else the article
  with \<^verbatim>\<open>displaytitle: page.varianttitles?.[currentLanguage.id] ?? page.title\<close>.
\<close>

definition toArticle :: "string \<Rightarrow> pageInfo \<Rightarrow> wikiArticle option" where
  "toArticle languageId page =
     (if \<not> truthy_number (page_pageid page) \<or> \<not> truthy_string (page_title page)
         \<or> \<not> truthy_string (page_extract page) \<or> \<not> truthy_string (page_canonicalurl page)
      then None
      else case (page_pageid page, page_title page, page_extract page, page_canonicalurl page) of
             (Some pageid, Some title, Some extract, Some canonicalurl) \<Rightarrow>
               Some \<lparr> article_title = title,
                      article_displaytitle =
                        (case page_varianttitles page of
                           None \<Rightarrow> title
                         | Some varianttitles \<Rightarrow>
                             (case varianttitles languageId of None \<Rightarrow> title | Some t \<Rightarrow> t)),
                      article_extract = extract,
                      article_pageid = pageid,
                      article_thumbnail = page_thumbnail page,
                      article_url = canonicalurl \<rparr>
           | _ \<Rightarrow> None)"

text \<open>The predicate of \<^verbatim>\<open>.filter\<close>: \<^verbatim>\<open>article !== null && !!article.thumbnail?.source\<close>.\<close>

definition keepArticle :: "wikiArticle option \<Rightarrow> bool" where
  "keepArticle article =
     (case article of
        None \<Rightarrow> False
      | Some a \<Rightarrow> (case article_thumbnail a of
                     None \<Rightarrow> False
                   | Some thumbnail \<Rightarrow> truthy_string (thumbnail_source thumbnail)))"

text \<open>
  The preloading of the images (\<^verbatim>\<open>Promise.allSettled\<close>) does not change the result and
  is left out. An error payload throws inside \<^verbatim>\<open>try\<close>; the \<^verbatim>\<open>catch\<close> returns the empty
  list, as it does when the request itself fails.
\<close>

definition fetchArticleDetails ::
  "string \<Rightarrow> int list \<Rightarrow> pageDetailsApiResponse fetched \<Rightarrow> wikiArticle list" where
  "fetchArticleDetails languageId pageIds response =
     (if length pageIds = 0 then []
      else case response of
             Rejected \<Rightarrow> []
           | Resolved data \<Rightarrow>
               if details_error data \<noteq> None then []
               else
                 let pages = (case details_pages data of None \<Rightarrow> [] | Some ps \<Rightarrow> ps);
                     fetchedArticles = filter keepArticle (map (toArticle languageId) pages)
                 in concat (map (\<lambda>article. case article of None \<Rightarrow> [] | Some a \<Rightarrow> [a])
                              fetchedArticles))"

text \<open>
  The pages the \<^verbatim>\<open>.map\<close> runs over: the value of
  \<^verbatim>\<open>Object.values(data.query?.pages || {})\<close>, in the order of that enumeration.
\<close>

definition responsePages :: "pageDetailsApiResponse \<Rightarrow> pageInfo list" where
  "responsePages data = (case details_pages data of None \<Rightarrow> [] | Some ps \<Rightarrow> ps)"

subsection \<open>\<^verbatim>\<open>fetchAndProcessArticles\<close>: the selection of a batch\<close>

text \<open>
  Step 8: \<^verbatim>\<open>potentialIds\<close> after the filter, the test of the reset, the shown set and the
  candidates after it, and \<^verbatim>\<open>idsToFetch\<close>.
\<close>

definition potentialIds :: "int list \<Rightarrow> int set \<Rightarrow> int list" where
  "potentialIds allAvailableIds shown = filter (\<lambda>id. id \<notin> shown) allAvailableIds"

definition resetShown :: "int list \<Rightarrow> int set \<Rightarrow> bool" where
  "resetShown allAvailableIds shown =
     (length (potentialIds allAvailableIds shown) = 0 \<and> length allAvailableIds > 0)"

definition shownAfterReset :: "int list \<Rightarrow> int set \<Rightarrow> int set" where
  "shownAfterReset allAvailableIds shown =
     (if resetShown allAvailableIds shown then {} else shown)"

definition candidateIds :: "int list \<Rightarrow> int set \<Rightarrow> int list" where
  "candidateIds allAvailableIds shown =
     (if resetShown allAvailableIds shown then allAvailableIds
      else potentialIds allAvailableIds shown)"

definition idsToFetch :: "nat list \<Rightarrow> int list \<Rightarrow> int set \<Rightarrow> int list" where
  "idsToFetch js allAvailableIds shown =
     take BATCH_SIZE (shuffleArray js (candidateIds allAvailableIds shown))"

text \<open>
  The body of \<^verbatim>\<open>fetchAndProcessArticles\<close> from the pool on (\<^verbatim>\<open>allAvailableIds\<close>, built by
  steps 1 to 7, which touch neither the shown set nor the displayed list nor the buffer)
  to the \<^verbatim>\<open>finally\<close> block. The second component tells whether the foreground cycle called
  \<^verbatim>\<open>fetchAndProcessArticles(true)\<close> to fill the buffer; that nested cycle is not run here.
\<close>

definition processPool ::
  "bool \<Rightarrow> string \<Rightarrow> nat list \<Rightarrow> int list \<Rightarrow> pageDetailsApiResponse fetched \<Rightarrow> hook
     \<Rightarrow> hook \<times> bool" where
  "processPool forBuffer languageId js allAvailableIds response s =
     (if length allAvailableIds = 0 then (s\<lparr>loading := False\<rparr>, False)
      else
        let s1 = s\<lparr>shownPageIds := shownAfterReset allAvailableIds (shownPageIds s)\<rparr>;
            ids = idsToFetch js allAvailableIds (shownPageIds s)
        in if length ids = 0 then (s1\<lparr>loading := False\<rparr>, False)
           else
             let newArticles = fetchArticleDetails languageId ids response;
                 s2 = s1\<lparr>shownPageIds := shownPageIds s1 \<union> set ids\<rparr>
             in if length newArticles > 0
                then if forBuffer
                     then (s2\<lparr>buffer := newArticles, loading := False\<rparr>, False)
                     else (s2\<lparr>articles := articles s2 @ newArticles, loading := False\<rparr>, True)
                else (s2\<lparr>loading := False\<rparr>, False))"

subsection \<open>The guard of a cycle and \<^verbatim>\<open>getMoreArticles\<close>\<close>

text \<open>
  The first two lines of \<^verbatim>\<open>fetchAndProcessArticles\<close>:
  \<^verbatim>\<open>if (loading || targetCategories.length === 0) return; setLoading(true);\<close>
  The second component is the production cycle that has started, if one has.
\<close>

definition fetchAndProcessArticles_enter :: "string list \<Rightarrow> bool \<Rightarrow> hook \<Rightarrow> hook \<times> bool option" where
  "fetchAndProcessArticles_enter targetCategories forBuffer s =
     (if loading s \<or> length targetCategories = 0 then (s, None)
      else (s\<lparr>loading := True\<rparr>, Some forBuffer))"

definition getMoreArticles :: "string list \<Rightarrow> hook \<Rightarrow> hook \<times> bool option" where
  "getMoreArticles targetCategories s =
     (if length (buffer s) > 0
      then fetchAndProcessArticles_enter targetCategories True
             (s\<lparr>articles := articles s @ buffer s, buffer := []\<rparr>)
      else fetchAndProcessArticles_enter targetCategories False s)"

text \<open>
  The effect that runs after a render:
  \<^verbatim>\<open>if (targetCategories.length > 0 && articles.length === 0 && buffer.length === 0 && !loading) fetchAndProcessArticles(false);\<close>
\<close>

definition mountEffect :: "string list \<Rightarrow> hook \<Rightarrow> hook" where
  "mountEffect targetCategories s =
     (if length targetCategories > 0 \<and> length (articles s) = 0 \<and> length (buffer s) = 0
         \<and> \<not> loading s
      then fst (fetchAndProcessArticles_enter targetCategories False s)
      else s)"

subsection \<open>The states of the hook\<close>

text \<open>
  The states the hook goes through for a given list of target categories, from its first
  render: the effect, a consumer call, the end of a production cycle, a step of a
  resolver call. A production cycle runs only after it has passed the guard, so only
  when a target category is given; a foreground cycle that has called
  \<^verbatim>\<open>fetchAndProcessArticles(true)\<close> is followed by the end of that buffered cycle. The
  rules allow every order of these steps, every pool and every response: more runs than
  the program has, and so every state of the program.
\<close>

inductive reachable :: "string list \<Rightarrow> hook \<Rightarrow> bool"
  for targetCategories :: "string list" where
  first_render: "reachable targetCategories initial_hook"
| effect: "reachable targetCategories s \<Longrightarrow> reachable targetCategories (mountEffect targetCategories s)"
| consumer_call: "reachable targetCategories s \<Longrightarrow>
     reachable targetCategories (fst (getMoreArticles targetCategories s))"
| cycle_end: "reachable targetCategories s \<Longrightarrow> length targetCategories > 0 \<Longrightarrow>
     reachable targetCategories
       (fst (processPool forBuffer languageId js allAvailableIds response s))"
| resolver_start: "reachable targetCategories s \<Longrightarrow>
     reachable targetCategories (step_hook (fcm_start categoryName memberType s))"
| resolver_step: "reachable targetCategories s \<Longrightarrow>
     reachable targetCategories (step_hook (fcm_resume c response s))"

subsection \<open>Well-formed pages\<close>

text \<open>
  Two readings of "the page has a page identifier, a title, an extract, a canonical URL
  and a thumbnail source". In the first each field is present in the response. In the
  second each field is present and truthy in JavaScript: the identifier is not \<open>0\<close>, the
  strings are not empty.
\<close>

definition has_all_fields :: "pageInfo \<Rightarrow> bool" where
  "has_all_fields page =
     (page_pageid page \<noteq> None \<and> page_title page \<noteq> None \<and> page_extract page \<noteq> None
      \<and> page_canonicalurl page \<noteq> None
      \<and> (case page_thumbnail page of
            None \<Rightarrow> False
          | Some thumbnail \<Rightarrow> thumbnail_source thumbnail \<noteq> None))"

definition usable_page :: "pageInfo \<Rightarrow> bool" where
  "usable_page page =
     (truthy_number (page_pageid page) \<and> truthy_string (page_title page)
      \<and> truthy_string (page_extract page) \<and> truthy_string (page_canonicalurl page)
      \<and> (case page_thumbnail page of
            None \<Rightarrow> False
          | Some thumbnail \<Rightarrow> truthy_string (thumbnail_source thumbnail)))"

subsection \<open>Sample pages of the detail endpoint\<close>

text \<open>
  Page 10 is complete, page 11 has no thumbnail, page 12 is complete with an empty
  extract; \<open>article10\<close> is the article of page 10, \<open>reply10\<close> the response with page
  10 alone, \<open>maxlag_error\<close> an error payload.
\<close>

definition force_thumbnail :: pageThumbnail where
  "force_thumbnail = \<lparr> thumbnail_source = Some ''https://upload.wikimedia.org/force.png'',
     thumbnail_width = 800, thumbnail_height = 600 \<rparr>"

definition page10 :: pageInfo where
  "page10 = \<lparr> page_pageid = Some 10, page_title = Some ''Force'',
     page_extract = Some ''A force is an influence that can change the motion of an object.'',
     page_canonicalurl = Some ''https://en.wikipedia.org/wiki/Force'',
     page_varianttitles = None, page_thumbnail = Some force_thumbnail \<rparr>"

definition page11 :: pageInfo where
  "page11 = \<lparr> page_pageid = Some 11, page_title = Some ''Mass'',
     page_extract = Some ''Mass is an intrinsic property of a body.'',
     page_canonicalurl = Some ''https://en.wikipedia.org/wiki/Mass'',
     page_varianttitles = None, page_thumbnail = None \<rparr>"

definition page12 :: pageInfo where
  "page12 = \<lparr> page_pageid = Some 12, page_title = Some ''Work'',
     page_extract = Some [],
     page_canonicalurl = Some ''https://en.wikipedia.org/wiki/Work'',
     page_varianttitles = None, page_thumbnail = Some force_thumbnail \<rparr>"

definition maxlag_error :: apiError where
  "maxlag_error = \<lparr> error_code = ''maxlag'',
     error_info = ''Waiting for a database server'', error_star = [] \<rparr>"

definition reply10 :: "pageDetailsApiResponse fetched" where
  "reply10 = Resolved \<lparr> details_error = None, details_pages = Some [page10] \<rparr>"

definition article10 :: wikiArticle where
  "article10 = \<lparr> article_title = ''Force'', article_displaytitle = ''Force'',
     article_extract = ''A force is an influence that can change the motion of an object.'',
     article_pageid = 10, article_thumbnail = Some force_thumbnail,
     article_url = ''https://en.wikipedia.org/wiki/Force'' \<rparr>"

section \<open>Properties\<close>

subsection \<open>The shuffle\<close>

lemma length_shuffle_loop: "length (shuffle_loop i js xs) = length xs"
  by (induction i js xs rule: shuffle_loop.induct) simp_all

lemma mset_exchange:
  "i < length xs \<Longrightarrow> j < length xs \<Longrightarrow> mset (xs[i := xs ! j, j := xs ! i]) = mset xs"
  by (simp add: mset_swap)

lemma mset_shuffle_loop:
  "i < length xs \<Longrightarrow> random_draws i js \<Longrightarrow> mset (shuffle_loop i js xs) = mset xs"
proof (induction i js xs rule: shuffle_loop.induct)
  case (3 i j js array)
  then show ?case by (simp add: mset_exchange)
qed simp_all

lemma shuffle_loop_above:
  "i < k \<Longrightarrow> k < length xs \<Longrightarrow> random_draws i js \<Longrightarrow> shuffle_loop i js xs ! k = xs ! k"
proof (induction i js xs rule: shuffle_loop.induct)
  case (3 i j js array)
  then show ?case by simp
qed simp_all

lemma shuffle_loop_map:
  "i < length xs \<Longrightarrow> random_draws i js \<Longrightarrow>
   shuffle_loop i js (map f xs) = map f (shuffle_loop i js xs)"
proof (induction i js xs rule: shuffle_loop.induct)
  case (3 i j js array)
  then show ?case by (simp add: map_update)
qed simp_all

lemma length_shuffleArray: "length (shuffleArray js array) = length array"
  by (simp add: shuffleArray_def length_shuffle_loop)

lemma mset_shuffleArray:
  assumes "random_draws (length array - 1) js"
  shows "mset (shuffleArray js array) = mset array"
proof (cases array)
  case Nil
  then show ?thesis by (simp add: shuffleArray_def)
next
  case (Cons a as)
  then have "length array - 1 < length array" by simp
  then show ?thesis using assms by (simp add: shuffleArray_def mset_shuffle_loop)
qed

lemma shuffleArray_map:
  assumes "random_draws (length array - 1) js"
  shows "shuffleArray js (map f array) = map f (shuffleArray js array)"
proof (cases array)
  case Nil
  then show ?thesis by (simp add: shuffleArray_def)
next
  case (Cons a as)
  then have "length array - 1 < length array" by simp
  then show ?thesis using assms by (simp add: shuffleArray_def shuffle_loop_map)
qed

lemma shuffleArray_positions:
  assumes "random_draws (length array - 1) js"
  shows "shuffleArray js array = map ((!) array) (shuffleArray js [0..<length array])"
proof -
  have "shuffleArray js (map ((!) array) [0..<length array])
        = map ((!) array) (shuffleArray js [0..<length array])"
    using assms by (intro shuffleArray_map) simp
  then show ?thesis by (simp add: map_nth)
qed

lemma random_draws_Suc_set:
  "{js. random_draws (Suc i) js} = (\<lambda>(j, js). j # js) ` ({0..Suc i} \<times> {js. random_draws i js})"
proof (intro set_eqI iffI)
  fix ds assume "ds \<in> {js. random_draws (Suc i) js}"
  then show "ds \<in> (\<lambda>(j, js). j # js) ` ({0..Suc i} \<times> {js. random_draws i js})"
    by (cases ds) auto
next
  fix ds assume "ds \<in> (\<lambda>(j, js). j # js) ` ({0..Suc i} \<times> {js. random_draws i js})"
  then show "ds \<in> {js. random_draws (Suc i) js}" by auto
qed

lemma finite_card_random_draws:
  "finite {js. random_draws i js} \<and> card {js. random_draws i js} = fact (Suc i)"
proof (induction i)
  case 0
  then show ?case by simp
next
  case (Suc i)
  have inj: "inj_on (\<lambda>(j, js). j # js) ({0..Suc i} \<times> {js. random_draws i js})"
    by (auto simp: inj_on_def)
  have fin: "finite ({0..Suc i} \<times> {js. random_draws i js})" using Suc by simp
  have "card {js. random_draws (Suc i) js} = card ({0..Suc i} \<times> {js. random_draws i js})"
    unfolding random_draws_Suc_set using inj by (rule card_image)
  also have "\<dots> = Suc (Suc i) * fact (Suc i)" using Suc by (simp add: card_cartesian_product)
  finally have "card {js. random_draws (Suc i) js} = fact (Suc (Suc i))" by simp
  moreover have "finite {js. random_draws (Suc i) js}"
    unfolding random_draws_Suc_set using fin by (rule finite_imageI)
  ultimately show ?case by simp
qed

text \<open>
  Claim C10. For every array and every sequence of index draws the loop can consume,
  \<^verbatim>\<open>shuffleArray\<close> returns an array of the same length with the same elements in the
  same multiplicities: a permutation of its input.
\<close>

theorem shuffleArray_is_permutation:
  assumes "random_draws (length array - 1) js"
  shows "length (shuffleArray js array) = length array \<and> mset (shuffleArray js array) = mset array"
  using assms by (simp add: length_shuffleArray mset_shuffleArray)

theorem shuffleArray_is_permutation_witness:
  "random_draws (length [10, 20, 30, 40 :: int] - 1) [2, 0, 1]
   \<and> shuffleArray [2, 0, 1] [10, 20, 30, 40 :: int] = [40, 20, 10, 30]
   \<and> mset (shuffleArray [2, 0, 1] [10, 20, 30, 40 :: int]) = mset [10, 20, 30, 40]"
proof -
  have h: "random_draws (length [10, 20, 30, 40 :: int] - 1) [2, 0, 1]"
    by (simp add: eval_nat_numeral)
  have v: "shuffleArray [2, 0, 1] [10, 20, 30, 40 :: int] = [40, 20, 10, 30]"
    by (simp add: shuffleArray_def eval_nat_numeral)
  show ?thesis using h v shuffleArray_is_permutation[OF h] by simp
qed


text \<open>
  The loop that starts at index \<open>i\<close> leaves the cells above \<open>i\<close> alone, and the draw of
  iteration \<open>i\<close> decides which element ends in cell \<open>i\<close>. So the result determines the
  draws, last cell first.
\<close>

lemma draws_unique:
  assumes "distinct xs" "i < length xs" "mset ys = mset xs"
    and "\<forall>k. i < k \<and> k < length xs \<longrightarrow> ys ! k = xs ! k"
  shows "\<exists>!js. random_draws i js \<and> shuffle_loop i js xs = ys"
  using assms
proof (induction i arbitrary: xs)
  case 0
  have len: "length ys = length xs" using "0.prems"(3) by (rule mset_eq_length)
  have dys: "distinct ys" using "0.prems"(1) mset_eq_imp_distinct_iff[OF "0.prems"(3)] by simp
  have "ys ! 0 \<in> set xs"
    using "0.prems"(2) len mset_eq_setD[OF "0.prems"(3)] nth_mem[of 0 ys] by simp
  then obtain j where j: "j < length xs" "xs ! j = ys ! 0"
    by (auto simp: in_set_conv_nth)
  have "j = 0"
  proof (rule ccontr)
    assume "j \<noteq> 0"
    then have "ys ! j = xs ! j" using "0.prems"(4) j(1) by simp
    then have "ys ! j = ys ! 0" using j(2) by simp
    then show False using dys len j(1) \<open>j \<noteq> 0\<close> "0.prems"(2)
      by (simp add: nth_eq_iff_index_eq)
  qed
  have "ys = xs"
  proof (rule nth_equalityI)
    show "length ys = length xs" by (rule len)
  next
    fix k assume "k < length ys"
    then show "ys ! k = xs ! k" using j "0.prems"(4) len \<open>j = 0\<close> by (cases k) simp_all
  qed
  then show ?case by auto
next
  case (Suc i)
  let ?n = "Suc i"
  have len: "length ys = length xs" using Suc.prems(3) by (rule mset_eq_length)
  have dys: "distinct ys" using Suc.prems(1) mset_eq_imp_distinct_iff[OF Suc.prems(3)] by simp
  have "ys ! ?n \<in> set xs"
    using Suc.prems(2) len mset_eq_setD[OF Suc.prems(3)] nth_mem[of ?n ys] by simp
  then obtain j where j: "j < length xs" "xs ! j = ys ! ?n"
    by (auto simp: in_set_conv_nth)
  have jle: "j \<le> ?n"
  proof (rule ccontr)
    assume "\<not> j \<le> ?n"
    then have gt: "?n < j" by simp
    then have "ys ! j = xs ! j" using Suc.prems(4) j(1) by simp
    then have "ys ! j = ys ! ?n" using j(2) by simp
    then show False using dys len j(1) gt Suc.prems(2)
      by (simp add: nth_eq_iff_index_eq)
  qed
  let ?xs' = "xs[?n := xs ! j, j := xs ! ?n]"
  have d': "distinct ?xs'"
    using Suc.prems(1) mset_eq_imp_distinct_iff[OF mset_exchange[OF Suc.prems(2) j(1)]] by simp
  have l': "i < length ?xs'" using Suc.prems(2) by simp
  have m': "mset ys = mset ?xs'"
    using Suc.prems(3) mset_exchange[OF Suc.prems(2) j(1)] by simp
  have f': "\<forall>k. i < k \<and> k < length ?xs' \<longrightarrow> ys ! k = ?xs' ! k"
  proof (intro allI impI)
    fix k assume k: "i < k \<and> k < length ?xs'"
    show "ys ! k = ?xs' ! k"
    proof (cases "k = ?n")
      case True
      then show ?thesis using j(1) j(2)[symmetric] Suc.prems(2) by (auto simp: nth_list_update)
    next
      case False
      then have "?n < k" using k by simp
      then show ?thesis using k jle Suc.prems(4) by (simp add: nth_list_update)
    qed
  qed
  from Suc.IH[OF d' l' m' f'] obtain js where
    js: "random_draws i js" "shuffle_loop i js ?xs' = ys"
    and uniq: "\<And>js'. random_draws i js' \<and> shuffle_loop i js' ?xs' = ys \<Longrightarrow> js' = js"
    by auto
  show ?case
  proof (rule ex1I[of _ "j # js"])
    show "random_draws ?n (j # js) \<and> shuffle_loop ?n (j # js) xs = ys"
      using js jle by simp
  next
    fix ds assume ds: "random_draws ?n ds \<and> shuffle_loop ?n ds xs = ys"
    then obtain d ds' where dd: "ds = d # ds'" by (cases ds) auto
    with ds have d: "d \<le> ?n" "random_draws i ds'"
      and run: "shuffle_loop i ds' (xs[?n := xs ! d, d := xs ! ?n]) = ys" by auto
    have dlt: "d < length xs" using d(1) Suc.prems(2) by simp
    have "ys ! ?n = (xs[?n := xs ! d, d := xs ! ?n]) ! ?n"
      using shuffle_loop_above[of i ?n "xs[?n := xs ! d, d := xs ! ?n]" ds'] d(2) Suc.prems(2) run
      by simp
    also have "\<dots> = xs ! d" using Suc.prems(2) dlt by (simp add: nth_list_update)
    finally have "xs ! d = xs ! j" using j(2) by simp
    then have "d = j" using Suc.prems(1) dlt j(1) by (simp add: nth_eq_iff_index_eq)
    then have "ds' = js" using uniq[of ds'] d(2) run by simp
    then show "ds = j # js" using dd \<open>d = j\<close> by simp
  qed
qed

lemma shuffleArray_draws_unique:
  assumes "distinct xs" "mset ys = mset xs"
  shows "\<exists>!js. random_draws (length xs - 1) js \<and> shuffleArray js xs = ys"
proof (cases xs)
  case Nil
  then show ?thesis using assms by (auto simp: shuffleArray_def)
next
  case (Cons a as)
  then have "length xs - 1 < length xs" by simp
  moreover have "\<forall>k. length xs - 1 < k \<and> k < length xs \<longrightarrow> ys ! k = xs ! k" by auto
  ultimately show ?thesis
    unfolding shuffleArray_def using assms draws_unique[of xs "length xs - 1" ys] by blast
qed

lemma card_shuffle_draws: "card {js. random_draws (n - 1) js} = fact n"
proof (cases n)
  case 0
  then show ?thesis by simp
next
  case (Suc m)
  then show ?thesis using finite_card_random_draws[of m] by simp
qed

lemma draws_probability_uniform:
  "random_draws i js \<Longrightarrow> draws_probability i js = 1 / of_nat (fact (Suc i))"
proof (induction i arbitrary: js)
  case 0
  then show ?case by simp
next
  case (Suc i)
  from Suc.prems obtain j ds where js: "js = j # ds" and j: "j \<le> Suc i" and ds: "random_draws i ds"
    by (cases js) auto
  have "draws_probability (Suc i) js = 1 / of_nat (Suc (Suc i)) * draws_probability i ds"
    using js j by simp
  also have "\<dots> = 1 / of_nat (Suc (Suc i)) * (1 / of_nat (fact (Suc i)))"
    using Suc.IH[OF ds] by simp
  also have "\<dots> = 1 / (of_nat (Suc (Suc i)) * of_nat (fact (Suc i)))"
    by (simp only: times_divide_times_eq mult_1)
  also have "of_nat (Suc (Suc i)) * of_nat (fact (Suc i)) = (of_nat (fact (Suc (Suc i))) :: rat)"
    by (simp only: fact_Suc[of "Suc i"] of_nat_mult of_nat_id)
  finally show ?case .
qed

lemma draws_probability_total:
  "sum (draws_probability i) {js. random_draws i js} = 1"
proof -
  have "sum (draws_probability i) {js. random_draws i js}
        = sum (\<lambda>js. 1 / of_nat (fact (Suc i))) {js. random_draws i js}"
    by (rule sum.cong) (simp_all only: draws_probability_uniform mem_Collect_eq)
  also have "\<dots> = of_nat (card {js. random_draws i js}) * (1 / of_nat (fact (Suc i)))"
    by (simp only: sum_constant)
  also have "\<dots> = of_nat (fact (Suc i)) * (1 / of_nat (fact (Suc i)))"
    using finite_card_random_draws[of i] by (simp only:)
  also have "\<dots> = 1"
  proof -
    have "(of_nat (fact (Suc i)) :: rat) \<noteq> 0"
      by (simp only: of_nat_eq_0_iff fact_nonzero not_False_eq_True)
    then show ?thesis by (simp del: fact_Suc of_nat_fact)
  qed
  finally show ?thesis .
qed


lemma shuffle_probability_unique:
  assumes "\<exists>!js. random_draws (length array - 1) js \<and> shuffleArray js array = result"
  shows "shuffle_probability array result = 1 / of_nat (fact (length array))"
proof -
  from assms obtain js where js: "random_draws (length array - 1) js \<and> shuffleArray js array = result"
    and uniq: "\<And>ds. random_draws (length array - 1) ds \<and> shuffleArray ds array = result \<Longrightarrow> ds = js"
    by (rule ex1E) blast
  have "{ds. random_draws (length array - 1) ds \<and> shuffleArray ds array = result} = {js}"
  proof (intro set_eqI iffI)
    fix ds assume "ds \<in> {ds. random_draws (length array - 1) ds \<and> shuffleArray ds array = result}"
    then have "ds = js" using uniq[of ds] by simp
    then show "ds \<in> {js}" by simp
  next
    fix ds assume "ds \<in> {js}"
    then show "ds \<in> {ds. random_draws (length array - 1) ds \<and> shuffleArray ds array = result}"
      using js by simp
  qed
  then have "shuffle_probability array result = draws_probability (length array - 1) js"
    by (simp add: shuffle_probability_def)
  also have "\<dots> = 1 / of_nat (fact (Suc (length array - 1)))"
    using js by (simp only: draws_probability_uniform)
  also have "(fact (Suc (length array - 1)) :: nat) = fact (length array)"
  proof (cases array)
    case Nil
    then show ?thesis by simp
  next
    case (Cons a as)
    then show ?thesis by (simp del: fact_Suc)
  qed
  finally show ?thesis .
qed

text \<open>
  Claim C2. The sampler shuffles the whole list of aggregated names with
  \<^verbatim>\<open>shuffleArray\<close> and keeps the first \<open>SUBCAT_SAMPLE_SIZE = 5\<close>. The shuffle is unbiased:
  every arrangement \<open>p\<close> of the positions of the list is produced by exactly one of the
  \<open>n!\<close> sequences of draws, and the shuffled list is the input read through \<open>p\<close>; for a
  list without duplicates, every permutation of the list is the result of exactly one
  sequence. With independent uniform draws every arrangement of the positions, and every
  permutation of a list without duplicates, has the same probability \<open>1 / n!\<close>.
\<close>

theorem subcatSample_unbiased:
  fixes allSubcatNames :: "'a list"
  shows "(\<forall>p. mset p = mset [0..<length allSubcatNames] \<longrightarrow>
            (\<exists>!js. random_draws (length allSubcatNames - 1) js
                 \<and> shuffleArray js [0..<length allSubcatNames] = p)
            \<and> shuffle_probability [0..<length allSubcatNames] p
                = 1 / of_nat (fact (length allSubcatNames)))
       \<and> (\<forall>js. random_draws (length allSubcatNames - 1) js \<longrightarrow>
            shuffleArray js allSubcatNames
              = map ((!) allSubcatNames) (shuffleArray js [0..<length allSubcatNames]))
       \<and> (distinct allSubcatNames \<longrightarrow>
            (\<forall>ys. mset ys = mset allSubcatNames \<longrightarrow>
               (\<exists>!js. random_draws (length allSubcatNames - 1) js
                    \<and> shuffleArray js allSubcatNames = ys)
               \<and> shuffle_probability allSubcatNames ys
                   = 1 / of_nat (fact (length allSubcatNames))))
       \<and> card {js. random_draws (length allSubcatNames - 1) js} = fact (length allSubcatNames)
       \<and> sum (draws_probability (length allSubcatNames - 1))
            {js. random_draws (length allSubcatNames - 1) js} = 1
       \<and> (\<forall>js. subcatSample js allSubcatNames = take 5 (shuffleArray js allSubcatNames))"
proof (intro conjI allI impI)
  fix p :: "nat list"
  assume "mset p = mset [0..<length allSubcatNames]"
  then have u: "\<exists>!js. random_draws (length [0..<length allSubcatNames] - 1) js
                 \<and> shuffleArray js [0..<length allSubcatNames] = p"
    by (intro shuffleArray_draws_unique) simp_all
  then show "\<exists>!js. random_draws (length allSubcatNames - 1) js
                 \<and> shuffleArray js [0..<length allSubcatNames] = p"
    by simp
  from shuffle_probability_unique[OF u]
  show "shuffle_probability [0..<length allSubcatNames] p
                = 1 / of_nat (fact (length allSubcatNames))"
    by simp
next
  fix js assume "random_draws (length allSubcatNames - 1) js"
  then show "shuffleArray js allSubcatNames
              = map ((!) allSubcatNames) (shuffleArray js [0..<length allSubcatNames])"
    by (rule shuffleArray_positions)
next
  fix ys assume "distinct allSubcatNames" "mset ys = mset allSubcatNames"
  then show u: "\<exists>!js. random_draws (length allSubcatNames - 1) js
                    \<and> shuffleArray js allSubcatNames = ys"
    by (rule shuffleArray_draws_unique)
  show "shuffle_probability allSubcatNames ys = 1 / of_nat (fact (length allSubcatNames))"
    using u by (rule shuffle_probability_unique)
next
  show "card {js. random_draws (length allSubcatNames - 1) js} = fact (length allSubcatNames)"
    by (rule card_shuffle_draws)
next
  show "sum (draws_probability (length allSubcatNames - 1))
            {js. random_draws (length allSubcatNames - 1) js} = 1"
    by (rule draws_probability_total)
next
  fix js show "subcatSample js allSubcatNames = take 5 (shuffleArray js allSubcatNames)"
    by (simp add: subcatSample_def SUBCAT_SAMPLE_SIZE_def)
qed

theorem subcatSample_unbiased_witness:
  "mset [1, 2, 0] = mset [0..<length [''A'', ''B'', ''C'']]
   \<and> (\<exists>!js. random_draws (length [''A'', ''B'', ''C''] - 1) js
           \<and> shuffleArray js [0..<length [''A'', ''B'', ''C'']] = [1, 2, 0])
   \<and> random_draws (length [''A'', ''B'', ''C''] - 1) [0, 0]
   \<and> shuffleArray [0, 0] [0..<length [''A'', ''B'', ''C'']] = [1, 2, 0]
   \<and> shuffleArray [0, 0] [''A'', ''B'', ''C''] = [''B'', ''C'', ''A'']
   \<and> distinct [''A'', ''B'', ''C'']
   \<and> (\<exists>!js. random_draws (length [''A'', ''B'', ''C''] - 1) js
           \<and> shuffleArray js [''A'', ''B'', ''C''] = [''B'', ''C'', ''A''])
   \<and> shuffle_probability [''A'', ''B'', ''C''] [''B'', ''C'', ''A''] = 1 / 6"
proof -
  have p: "mset [1, 2, 0] = mset [0..<length [''A'', ''B'', ''C'']]"
    by (simp add: upt_rec)
  have d: "random_draws (length [''A'', ''B'', ''C''] - 1) [0, 0]"
    by (simp add: eval_nat_numeral)
  have v: "shuffleArray [0, 0] [0..<length [''A'', ''B'', ''C'']] = [1, 2, 0]"
    by (simp add: shuffleArray_def eval_nat_numeral upt_rec)
  have w: "shuffleArray [0, 0] [''A'', ''B'', ''C''] = [''B'', ''C'', ''A'']"
    by (simp add: shuffleArray_def eval_nat_numeral)
  have dist: "distinct [''A'', ''B'', ''C'']" by simp
  have m: "mset [''B'', ''C'', ''A''] = mset [''A'', ''B'', ''C'']" by simp
  have f: "(1 :: rat) / of_nat (fact (length [''A'', ''B'', ''C''])) = 1 / 6"
    by (simp add: eval_nat_numeral)
  note main = subcatSample_unbiased[of "[''A'', ''B'', ''C'']"]
  from main p have e1: "\<exists>!js. random_draws (length [''A'', ''B'', ''C''] - 1) js
           \<and> shuffleArray js [0..<length [''A'', ''B'', ''C'']] = [1, 2, 0]" by blast
  from main dist m have e2: "\<exists>!js. random_draws (length [''A'', ''B'', ''C''] - 1) js
           \<and> shuffleArray js [''A'', ''B'', ''C''] = [''B'', ''C'', ''A'']" by blast
  from main dist m have "shuffle_probability [''A'', ''B'', ''C''] [''B'', ''C'', ''A'']
      = 1 / of_nat (fact (length [''A'', ''B'', ''C'']))" by blast
  then have e3: "shuffle_probability [''A'', ''B'', ''C''] [''B'', ''C'', ''A''] = 1 / 6"
    by (simp only: f)
  show ?thesis using p e1 d v w dist e2 e3 by blast
qed

subsection \<open>The resolver of category members\<close>

lemma cacheKey_inj:
  "cacheKey n1 m1 = cacheKey n2 m2 \<longleftrightarrow> n1 = n2 \<and> m1 = m2"
proof
  assume eq: "cacheKey n1 m1 = cacheKey n2 m2"
  then have "last (cacheKey n1 m1) = last (cacheKey n2 m2)" by simp
  then have m: "m1 = m2" by (cases m1; cases m2) (simp_all add: cacheKey_def)
  with eq have "n1 = n2" by (cases m2) (simp_all add: cacheKey_def)
  with m show "n1 = n2 \<and> m1 = m2" by simp
qed simp

lemma cacheRef_simps:
  "cacheRef m (setStatus k st s) = cacheRef m s"
  "cacheRef m (issue r s) = cacheRef m s"
  "cacheRef m (storeMembers m' n v s) = (if m = m' then (cacheRef m s)(n \<mapsto> v) else cacheRef m s)"
  by (cases m; cases m'; simp add: cacheRef_def setStatus_def issue_def storeMembers_def)+

lemma fetchingStatus_simps:
  "fetchingStatus (setStatus k st s) = (fetchingStatus s)(k \<mapsto> st)"
  "fetchingStatus (issue r s) = fetchingStatus s"
  "fetchingStatus (storeMembers m n v s) = fetchingStatus s"
  by (cases m; simp add: setStatus_def issue_def storeMembers_def)+

lemma requests_simps:
  "requests (setStatus k st s) = requests s"
  "requests (issue r s) = requests s @ [r]"
  "requests (storeMembers m n v s) = requests s"
  by (cases m; simp add: setStatus_def issue_def storeMembers_def)+

lemma fcm_start_cached:
  assumes "cacheRef memberType s categoryName = Some cached"
    and "fetchingStatus s (cacheKey categoryName memberType) \<noteq> Some Error"
  shows "fcm_start categoryName memberType s = Returned cached s"
  using assms by (simp add: fcm_start_def)


lemma fcm_start_awaiting:
  assumes "fcm_start categoryName memberType s = Awaiting c s'"
  shows "s' = issue (categoryName, memberType, None)
               (setStatus (cacheKey categoryName memberType) Pending s)"
    and "c = \<lparr> call_categoryName = categoryName, call_memberType = memberType,
               call_allMembers = [] \<rparr>"
  using assms by (auto simp: fcm_start_def Let_def split: option.splits if_splits)

lemma fcm_start_error_retries:
  assumes "fetchingStatus s (cacheKey categoryName memberType) = Some Error"
  shows "fcm_start categoryName memberType s =
           Awaiting \<lparr> call_categoryName = categoryName, call_memberType = memberType,
                      call_allMembers = [] \<rparr>
             (issue (categoryName, memberType, None)
                (setStatus (cacheKey categoryName memberType) Pending s))"
  using assms by (simp add: fcm_start_def Let_def split: option.splits)

lemma fcm_failed_state:
  "cacheRef memberType (fcm_finally categoryName memberType (fcm_catch categoryName memberType s))
     categoryName = Some None"
  "fetchingStatus (fcm_finally categoryName memberType (fcm_catch categoryName memberType s))
     (cacheKey categoryName memberType) = Some Error"
  "requests (fcm_finally categoryName memberType (fcm_catch categoryName memberType s)) = requests s"
  by (simp_all add: fcm_finally_def fcm_catch_def cacheRef_simps fetchingStatus_simps requests_simps)

lemma fcm_finally_not_pending:
  "fetchingStatus (fcm_finally categoryName memberType s) (cacheKey categoryName memberType)
     \<noteq> Some Pending"
  by (simp add: fcm_finally_def fetchingStatus_simps)


lemma key_consistent_initial: "key_consistent n m initial_hook"
  by (cases m) (simp_all add: key_consistent_def cacheRef_def initial_hook_def)


lemma key_consistent_failed:
  assumes "key_consistent n m s"
  shows "key_consistent n m (fcm_finally categoryName memberType (fcm_catch categoryName memberType s))"
proof (cases "cacheKey n m = cacheKey categoryName memberType")
  case True
  then have "n = categoryName" "m = memberType" by (simp_all add: cacheKey_inj)
  then show ?thesis
    by (simp add: key_consistent_def fcm_finally_def fcm_catch_def cacheRef_simps fetchingStatus_simps)
next
  case False
  then have "n \<noteq> categoryName \<or> m \<noteq> memberType" by (simp add: cacheKey_inj)
  then show ?thesis using assms False
    by (auto simp: key_consistent_def fcm_finally_def fcm_catch_def cacheRef_simps
        fetchingStatus_simps split: option.splits)
qed

lemma key_consistent_stored:
  assumes "key_consistent n m s"
  shows "key_consistent n m
           (fcm_finally categoryName memberType
              (setStatus (cacheKey categoryName memberType) Done
                 (storeMembers memberType categoryName (Some allMembers) s)))"
proof (cases "cacheKey n m = cacheKey categoryName memberType")
  case True
  then have "n = categoryName" "m = memberType" by (simp_all add: cacheKey_inj)
  then show ?thesis
    by (simp add: key_consistent_def fcm_finally_def cacheRef_simps fetchingStatus_simps)
next
  case False
  then have "n \<noteq> categoryName \<or> m \<noteq> memberType" by (simp add: cacheKey_inj)
  then show ?thesis using assms False
    by (auto simp: key_consistent_def fcm_finally_def cacheRef_simps
        fetchingStatus_simps split: option.splits)
qed

lemma key_consistent_issue:
  "key_consistent n m (issue r s) = key_consistent n m s"
  by (simp add: key_consistent_def cacheRef_simps fetchingStatus_simps split: option.splits)

lemma key_consistent_resume:
  assumes "key_consistent n m s"
  shows "key_consistent n m (step_hook (fcm_resume c response s))"
proof (cases response)
  case Rejected
  then show ?thesis using assms by (simp add: fcm_resume_def Let_def key_consistent_failed)
next
  case (Resolved data)
  then show ?thesis using assms
    by (simp add: fcm_resume_def Let_def key_consistent_failed key_consistent_stored
        key_consistent_issue split: option.splits)
qed


text \<open>The cycle and the consumer call leave the caches, the statuses and the requests alone.\<close>

lemma processPool_frame:
  "categoryPageIds (fst (processPool forBuffer languageId js allAvailableIds response s))
     = categoryPageIds s"
  "categorySubcats (fst (processPool forBuffer languageId js allAvailableIds response s))
     = categorySubcats s"
  "fetchingStatus (fst (processPool forBuffer languageId js allAvailableIds response s))
     = fetchingStatus s"
  "requests (fst (processPool forBuffer languageId js allAvailableIds response s)) = requests s"
  by (simp_all add: processPool_def Let_def)

lemma getMoreArticles_frame:
  "categoryPageIds (fst (getMoreArticles targetCategories s)) = categoryPageIds s"
  "categorySubcats (fst (getMoreArticles targetCategories s)) = categorySubcats s"
  "fetchingStatus (fst (getMoreArticles targetCategories s)) = fetchingStatus s"
  "requests (fst (getMoreArticles targetCategories s)) = requests s"
  by (simp_all add: getMoreArticles_def fetchAndProcessArticles_enter_def)

lemma key_consistent_processPool:
  "key_consistent n m (fst (processPool forBuffer languageId js allAvailableIds response s))
     = key_consistent n m s"
  by (cases m) (simp_all add: key_consistent_def cacheRef_def processPool_frame cong: option.case_cong)

lemma key_consistent_getMoreArticles:
  "key_consistent n m (fst (getMoreArticles targetCategories s)) = key_consistent n m s"
  by (cases m) (simp_all add: key_consistent_def cacheRef_def getMoreArticles_frame cong: option.case_cong)

lemma mountEffect_frame:
  "categoryPageIds (mountEffect targetCategories s) = categoryPageIds s"
  "categorySubcats (mountEffect targetCategories s) = categorySubcats s"
  "fetchingStatus (mountEffect targetCategories s) = fetchingStatus s"
  "requests (mountEffect targetCategories s) = requests s"
  by (simp_all add: mountEffect_def fetchAndProcessArticles_enter_def)

lemma key_consistent_mountEffect:
  "key_consistent n m (mountEffect targetCategories s) = key_consistent n m s"
  by (cases m) (simp_all add: key_consistent_def cacheRef_def mountEffect_frame cong: option.case_cong)

lemma fcm_resume_call:
  assumes "fcm_resume c response s = Awaiting c' s'"
  shows "call_categoryName c' = call_categoryName c \<and> call_memberType c' = call_memberType c"
  using assms
  by (cases response) (auto simp: fcm_resume_def Let_def split: if_splits option.splits)

lemma fcm_resume_returned_list:
  assumes "fcm_resume c response s = Returned (Some xs) s'"
  shows "cacheRef (call_memberType c) s' (call_categoryName c) = Some (Some xs)
       \<and> fetchingStatus s' (cacheKey (call_categoryName c) (call_memberType c)) = Some Done"
  using assms
  by (cases response)
    (auto simp: fcm_resume_def Let_def fcm_finally_def cacheRef_simps fetchingStatus_simps
      split: if_splits option.splits)

lemma fcm_run_returned_list:
  assumes "fcm_run (Awaiting c s) responses = Some (Some xs, s')"
  shows "cacheRef (call_memberType c) s' (call_categoryName c) = Some (Some xs)
       \<and> fetchingStatus s' (cacheKey (call_categoryName c) (call_memberType c)) = Some Done"
  using assms
proof (induction responses arbitrary: c s)
  case Nil
  then show ?case by simp
next
  case (Cons r responses)
  show ?case
  proof (cases "fcm_resume c r s")
    case (Returned v s1)
    then show ?thesis using Cons.prems fcm_resume_returned_list[of c r s xs s'] by simp
  next
    case (Awaiting c1 s1)
    then show ?thesis
      using Cons.prems Cons.IH[of c1 s1] fcm_resume_call[of c r s c1 s1] by simp
  qed
qed

lemma fetchCategoryMembers_returned_list:
  assumes "fetchCategoryMembers categoryName memberType responses s = Some (Some xs, s')"
  shows "cacheRef memberType s' categoryName = Some (Some xs)
       \<and> fetchingStatus s' (cacheKey categoryName memberType) \<noteq> Some Error"
proof (cases "fcm_start categoryName memberType s")
  case (Returned v s1)
  then have "v = Some xs" "s1 = s'" using assms by (simp_all add: fetchCategoryMembers_def)
  then show ?thesis using Returned
    by (auto simp: fcm_start_def Let_def split: option.splits if_splits)
next
  case (Awaiting c s1)
  then have "fcm_run (Awaiting c s1) responses = Some (Some xs, s')"
    using assms by (simp add: fetchCategoryMembers_def)
  from fcm_run_returned_list[OF this] fcm_start_awaiting(2)[OF Awaiting]
  show ?thesis by simp
qed

text \<open>
  Claim C3. When a result is cached for a (category, kind) key and the status of the key
  is not \<open>Error\<close>, a call for the key returns the cached value before the first
  \<^verbatim>\<open>await\<close> and leaves the whole state as it was, the record of requests included: no
  network call. In particular, after a call that returned a list, a second call for the
  key returns the identical list and changes nothing.
\<close>

theorem cached_result_returned_without_fetch:
  "(cacheRef memberType s categoryName = Some cached
      \<and> fetchingStatus s (cacheKey categoryName memberType) \<noteq> Some Error
    \<longrightarrow> fcm_start categoryName memberType s = Returned cached s
      \<and> fetchCategoryMembers categoryName memberType responses s = Some (cached, s))
   \<and> (fetchCategoryMembers categoryName memberType responses0 s0 = Some (Some xs, s1)
    \<longrightarrow> fetchCategoryMembers categoryName memberType responses s1 = Some (Some xs, s1))"
proof (intro conjI impI)
  assume h: "cacheRef memberType s categoryName = Some cached
      \<and> fetchingStatus s (cacheKey categoryName memberType) \<noteq> Some Error"
  then show "fcm_start categoryName memberType s = Returned cached s"
    by (simp add: fcm_start_cached)
  with h show "fetchCategoryMembers categoryName memberType responses s = Some (cached, s)"
    by (simp add: fetchCategoryMembers_def)
next
  assume "fetchCategoryMembers categoryName memberType responses0 s0 = Some (Some xs, s1)"
  from fetchCategoryMembers_returned_list[OF this]
  show "fetchCategoryMembers categoryName memberType responses s1 = Some (Some xs, s1)"
    by (simp add: fetchCategoryMembers_def fcm_start_cached)
qed



lemma fcm_resume_returned_status:
  assumes "fcm_resume c response s = Returned v s'"
  shows "fetchingStatus s' (cacheKey (call_categoryName c) (call_memberType c)) = Some Done
       \<or> fetchingStatus s' (cacheKey (call_categoryName c) (call_memberType c)) = Some Error"
  using assms
  by (cases response)
    (auto simp: fcm_resume_def Let_def fcm_finally_def fcm_catch_def fetchingStatus_simps
      split: if_splits option.splits)

lemma fcm_run_returned_status:
  assumes "fcm_run (Awaiting c s) responses = Some (v, s')"
  shows "fetchingStatus s' (cacheKey (call_categoryName c) (call_memberType c)) = Some Done
       \<or> fetchingStatus s' (cacheKey (call_categoryName c) (call_memberType c)) = Some Error"
  using assms
proof (induction responses arbitrary: c s)
  case Nil
  then show ?case by simp
next
  case (Cons r responses)
  show ?case
  proof (cases "fcm_resume c r s")
    case (Returned v1 s1)
    then show ?thesis using Cons.prems fcm_resume_returned_status[of c r s v s'] by simp
  next
    case (Awaiting c1 s1)
    then show ?thesis
      using Cons.prems Cons.IH[of c1 s1] fcm_resume_call[of c r s c1 s1] by simp
  qed
qed

lemma fcm_resume_failed:
  assumes "response = Rejected \<or> (\<exists>data. response = Resolved data \<and> data_error data \<noteq> None)"
  shows "fcm_resume c response s =
           Returned None (fcm_finally (call_categoryName c) (call_memberType c)
                            (fcm_catch (call_categoryName c) (call_memberType c) s))"
  using assms by (auto simp: fcm_resume_def Let_def)

text \<open>
  Claim C6. When a response of the listing call is a failure of the network or carries an
  error payload, the call returns \<^verbatim>\<open>null\<close>, caches \<^verbatim>\<open>null\<close> for the key and marks
  the key \<open>Error\<close>. A later call for a key marked \<open>Error\<close> passes the cache test and
  issues a new request. The \<^verbatim>\<open>finally\<close> block turns a status still \<open>Pending\<close> into
  \<open>Error\<close>, and no call that has entered the \<^verbatim>\<open>try\<close> block returns with its key
  \<open>Pending\<close>.
\<close>

theorem resolution_error_cached_as_null:
  "(response = Rejected \<or> (\<exists>data. response = Resolved data \<and> data_error data \<noteq> None)
     \<longrightarrow> (\<exists>s'. fcm_resume c response s = Returned None s'
            \<and> cacheRef (call_memberType c) s' (call_categoryName c) = Some None
            \<and> fetchingStatus s' (cacheKey (call_categoryName c) (call_memberType c)) = Some Error))
   \<and> (fetchingStatus s (cacheKey categoryName memberType) = Some Error
     \<longrightarrow> (\<exists>c' s'. fcm_start categoryName memberType s = Awaiting c' s'
            \<and> requests s' = requests s @ [(categoryName, memberType, None)]
            \<and> fetchingStatus s' (cacheKey categoryName memberType) = Some Pending))
   \<and> (fetchingStatus s (cacheKey categoryName memberType) = Some Pending
     \<longrightarrow> fetchingStatus (fcm_finally categoryName memberType s)
           (cacheKey categoryName memberType) = Some Error)
   \<and> fetchingStatus (fcm_finally categoryName memberType s)
        (cacheKey categoryName memberType) \<noteq> Some Pending
   \<and> (fcm_run (Awaiting c s) responses = Some (v, s1)
     \<longrightarrow> fetchingStatus s1 (cacheKey (call_categoryName c) (call_memberType c)) = Some Done
       \<or> fetchingStatus s1 (cacheKey (call_categoryName c) (call_memberType c)) = Some Error)"
proof (intro conjI impI)
  assume "response = Rejected \<or> (\<exists>data. response = Resolved data \<and> data_error data \<noteq> None)"
  then show "\<exists>s'. fcm_resume c response s = Returned None s'
            \<and> cacheRef (call_memberType c) s' (call_categoryName c) = Some None
            \<and> fetchingStatus s' (cacheKey (call_categoryName c) (call_memberType c)) = Some Error"
    by (simp add: fcm_resume_failed fcm_failed_state)
next
  assume "fetchingStatus s (cacheKey categoryName memberType) = Some Error"
  then show "\<exists>c' s'. fcm_start categoryName memberType s = Awaiting c' s'
            \<and> requests s' = requests s @ [(categoryName, memberType, None)]
            \<and> fetchingStatus s' (cacheKey categoryName memberType) = Some Pending"
    by (simp add: fcm_start_error_retries requests_simps fetchingStatus_simps)
next
  assume "fetchingStatus s (cacheKey categoryName memberType) = Some Pending"
  then show "fetchingStatus (fcm_finally categoryName memberType s)
           (cacheKey categoryName memberType) = Some Error"
    by (simp add: fcm_finally_def fetchingStatus_simps)
next
  show "fetchingStatus (fcm_finally categoryName memberType s)
        (cacheKey categoryName memberType) \<noteq> Some Pending"
    by (rule fcm_finally_not_pending)
next
  assume "fcm_run (Awaiting c s) responses = Some (v, s1)"
  then show "fetchingStatus s1 (cacheKey (call_categoryName c) (call_memberType c)) = Some Done
       \<or> fetchingStatus s1 (cacheKey (call_categoryName c) (call_memberType c)) = Some Error"
    by (rule fcm_run_returned_status)
qed

lemmas fcm_eval =
  fetchCategoryMembers_def fcm_start_def fcm_resume_def fcm_catch_def fcm_finally_def
  cacheRef_def cacheKey_def storeMembers_def setStatus_def issue_def initial_hook_def Let_def

theorem cached_result_returned_without_fetch_witness:
  "\<exists>s1. fetchCategoryMembers ''Category:Physics'' Page [physics_page1, physics_page2] initial_hook
           = Some (Some [Num 1, Num 2, Num 3], s1)
      \<and> requests s1 = [(''Category:Physics'', Page, None), (''Category:Physics'', Page, Some ''page|2'')]
      \<and> cacheRef Page s1 ''Category:Physics'' = Some (Some [Num 1, Num 2, Num 3])
      \<and> fetchingStatus s1 (cacheKey ''Category:Physics'' Page) \<noteq> Some Error
      \<and> fcm_start ''Category:Physics'' Page s1 = Returned (Some [Num 1, Num 2, Num 3]) s1
      \<and> fetchCategoryMembers ''Category:Physics'' Page [] s1 = Some (Some [Num 1, Num 2, Num 3], s1)"
proof -
  have "\<exists>s1. fetchCategoryMembers ''Category:Physics'' Page [physics_page1, physics_page2] initial_hook
           = Some (Some [Num 1, Num 2, Num 3], s1)
      \<and> requests s1 = [(''Category:Physics'', Page, None), (''Category:Physics'', Page, Some ''page|2'')]
      \<and> cacheRef Page s1 ''Category:Physics'' = Some (Some [Num 1, Num 2, Num 3])
      \<and> fetchingStatus s1 (cacheKey ''Category:Physics'' Page) \<noteq> Some Error"
    by (simp add: fcm_eval physics_page1_def physics_page2_def)
  then obtain s1 where
    run: "fetchCategoryMembers ''Category:Physics'' Page [physics_page1, physics_page2] initial_hook
           = Some (Some [Num 1, Num 2, Num 3], s1)"
    and req: "requests s1 = [(''Category:Physics'', Page, None), (''Category:Physics'', Page, Some ''page|2'')]"
    and cache: "cacheRef Page s1 ''Category:Physics'' = Some (Some [Num 1, Num 2, Num 3])"
    and st: "fetchingStatus s1 (cacheKey ''Category:Physics'' Page) \<noteq> Some Error"
    by blast
  note main = cached_result_returned_without_fetch[of Page s1 "''Category:Physics''"
      "Some [Num 1, Num 2, Num 3]" "[]" "[physics_page1, physics_page2]" initial_hook
      "[Num 1, Num 2, Num 3]" s1]
  from main cache st have a: "fcm_start ''Category:Physics'' Page s1 = Returned (Some [Num 1, Num 2, Num 3]) s1"
    by blast
  from main run have b: "fetchCategoryMembers ''Category:Physics'' Page [] s1 = Some (Some [Num 1, Num 2, Num 3], s1)"
    by blast
  show ?thesis using run req cache st a b by blast
qed


theorem resolution_error_cached_as_null_witness:
  "\<exists>c s0 s1 c' s2.
      fcm_start ''Category:Nope'' Page initial_hook = Awaiting c s0
    \<and> fetchingStatus s0 (cacheKey ''Category:Nope'' Page) = Some Pending
    \<and> fetchingStatus (fcm_finally ''Category:Nope'' Page s0) (cacheKey ''Category:Nope'' Page) = Some Error
    \<and> fcm_resume c api_error_reply s0 = Returned None s1
    \<and> cacheRef Page s1 ''Category:Nope'' = Some None
    \<and> fetchingStatus s1 (cacheKey ''Category:Nope'' Page) = Some Error
    \<and> fcm_start ''Category:Nope'' Page s1 = Awaiting c' s2
    \<and> requests s2 = requests s1 @ [(''Category:Nope'', Page, None)]"
proof -
  have "\<exists>c s0. fcm_start ''Category:Nope'' Page initial_hook = Awaiting c s0
      \<and> call_categoryName c = ''Category:Nope'' \<and> call_memberType c = Page
      \<and> fetchingStatus s0 (cacheKey ''Category:Nope'' Page) = Some Pending"
    by (simp add: fcm_eval)
  then obtain c s0 where st: "fcm_start ''Category:Nope'' Page initial_hook = Awaiting c s0"
    and cn: "call_categoryName c = ''Category:Nope''" and cm: "call_memberType c = Page"
    and pend: "fetchingStatus s0 (cacheKey ''Category:Nope'' Page) = Some Pending"
    by blast
  have err: "api_error_reply = Rejected
     \<or> (\<exists>data. api_error_reply = Resolved data \<and> data_error data \<noteq> None)"
    by (simp add: api_error_reply_def)
  have "\<exists>s'. fcm_resume c api_error_reply s0 = Returned None s'
      \<and> cacheRef (call_memberType c) s' (call_categoryName c) = Some None
      \<and> fetchingStatus s' (cacheKey (call_categoryName c) (call_memberType c)) = Some Error"
    by (rule resolution_error_cached_as_null[THEN conjunct1, THEN mp, OF err])
  then obtain s1 where
    r: "fcm_resume c api_error_reply s0 = Returned None s1"
    and n: "cacheRef Page s1 ''Category:Nope'' = Some None"
    and e: "fetchingStatus s1 (cacheKey ''Category:Nope'' Page) = Some Error"
    by (auto simp: cn cm)
  note f = resolution_error_cached_as_null[THEN conjunct2, THEN conjunct2, THEN conjunct1,
      THEN mp, OF pend]
  note p2 = resolution_error_cached_as_null[THEN conjunct2, THEN conjunct1, THEN mp, OF e]
  then obtain c' s2 where
    "fcm_start ''Category:Nope'' Page s1 = Awaiting c' s2"
    "requests s2 = requests s1 @ [(''Category:Nope'', Page, None)]"
    by blast
  then show ?thesis using st pend f r n e by blast
qed

subsection \<open>The selection of a batch\<close>

lemma set_shuffleArray:
  assumes "random_draws (length array - 1) js"
  shows "set (shuffleArray js array) = set array"
  using mset_shuffleArray[OF assms] by (rule mset_eq_setD)

lemma candidateIds_unseen:
  "potentialIds allAvailableIds shown \<noteq> [] \<Longrightarrow>
   candidateIds allAvailableIds shown = potentialIds allAvailableIds shown
   \<and> shownAfterReset allAvailableIds shown = shown"
  by (simp add: candidateIds_def shownAfterReset_def resetShown_def)

lemma candidateIds_exhausted:
  "allAvailableIds \<noteq> [] \<Longrightarrow> set allAvailableIds \<subseteq> shown \<Longrightarrow>
   candidateIds allAvailableIds shown = allAvailableIds
   \<and> shownAfterReset allAvailableIds shown = {}"
  by (auto simp: candidateIds_def shownAfterReset_def resetShown_def potentialIds_def
      filter_empty_conv)

lemma length_idsToFetch:
  "length (idsToFetch js allAvailableIds shown)
     = min BATCH_SIZE (length (candidateIds allAvailableIds shown))"
  by (simp add: idsToFetch_def length_shuffleArray min.commute)

lemma set_idsToFetch:
  assumes "random_draws (length (candidateIds allAvailableIds shown) - 1) js"
  shows "set (idsToFetch js allAvailableIds shown) \<subseteq> set (candidateIds allAvailableIds shown)"
  using set_take_subset[of BATCH_SIZE "shuffleArray js (candidateIds allAvailableIds shown)"]
    set_shuffleArray[OF assms] by (simp add: idsToFetch_def)

text \<open>
  Claim C5. When some id of the pool is unseen, the selected batch holds no id of the
  shown set (and the shown set is left as it is): a shown id is returned only when the
  unseen part of the pool was empty. When the pool is not empty and all its ids are
  shown, the shown set is cleared and the batch is drawn from the whole pool: up to
  \<open>BATCH_SIZE\<close> of its ids.
\<close>

theorem batch_avoids_shown_until_exhaustion:
  assumes "random_draws (length (candidateIds allAvailableIds shown) - 1) js"
  shows "(potentialIds allAvailableIds shown \<noteq> [] \<longrightarrow>
            set (idsToFetch js allAvailableIds shown) \<inter> shown = {}
          \<and> set (idsToFetch js allAvailableIds shown) \<subseteq> set allAvailableIds
          \<and> shownAfterReset allAvailableIds shown = shown)
       \<and> (allAvailableIds \<noteq> [] \<and> set allAvailableIds \<subseteq> shown \<longrightarrow>
            shownAfterReset allAvailableIds shown = {}
          \<and> candidateIds allAvailableIds shown = allAvailableIds
          \<and> set (idsToFetch js allAvailableIds shown) \<subseteq> set allAvailableIds
          \<and> length (idsToFetch js allAvailableIds shown)
              = min BATCH_SIZE (length allAvailableIds))"
proof (intro conjI impI)
  assume unseen: "potentialIds allAvailableIds shown \<noteq> []"
  then have c: "candidateIds allAvailableIds shown = potentialIds allAvailableIds shown"
    by (simp add: candidateIds_unseen)
  have sub: "set (idsToFetch js allAvailableIds shown) \<subseteq> set (potentialIds allAvailableIds shown)"
    using set_idsToFetch[OF assms] c by simp
  then show "set (idsToFetch js allAvailableIds shown) \<inter> shown = {}"
    by (auto simp: potentialIds_def)
  from sub show "set (idsToFetch js allAvailableIds shown) \<subseteq> set allAvailableIds"
    by (auto simp: potentialIds_def)
  from unseen show "shownAfterReset allAvailableIds shown = shown"
    by (simp add: candidateIds_unseen)
next
  assume ex: "allAvailableIds \<noteq> [] \<and> set allAvailableIds \<subseteq> shown"
  then have c: "candidateIds allAvailableIds shown = allAvailableIds"
    and r: "shownAfterReset allAvailableIds shown = {}"
    by (simp_all add: candidateIds_exhausted)
  show "shownAfterReset allAvailableIds shown = {}" by (rule r)
  show "candidateIds allAvailableIds shown = allAvailableIds" by (rule c)
  show "set (idsToFetch js allAvailableIds shown) \<subseteq> set allAvailableIds"
    using set_idsToFetch[OF assms] c by simp
  show "length (idsToFetch js allAvailableIds shown) = min BATCH_SIZE (length allAvailableIds)"
    using length_idsToFetch[of js allAvailableIds shown] c by simp
qed

theorem batch_avoids_shown_until_exhaustion_witness:
  "random_draws (length (candidateIds [1, 2, 3, 4] {2}) - 1) [0, 1]
   \<and> potentialIds [1, 2, 3, 4] {2} \<noteq> []
   \<and> idsToFetch [0, 1] [1, 2, 3, 4] {2} = [4, 3, 1]
   \<and> set (idsToFetch [0, 1] [1, 2, 3, 4] {2}) \<inter> {2} = {}
   \<and> shownAfterReset [1, 2, 3, 4] {2} = {2}
   \<and> random_draws (length (candidateIds [1, 2] {1, 2, 9}) - 1) [0]
   \<and> [1, 2] \<noteq> [] \<and> set [1, 2] \<subseteq> {1, 2, 9 :: int}
   \<and> shownAfterReset [1, 2] {1, 2, 9} = {}
   \<and> idsToFetch [0] [1, 2] {1, 2, 9} = [2, 1]
   \<and> length (idsToFetch [0] [1, 2] {1, 2, 9}) = min BATCH_SIZE (length [1, 2 :: int])"
proof -
  have d1: "random_draws (length (candidateIds [1, 2, 3, 4] {2}) - 1) [0, 1]"
    by (simp add: candidateIds_def resetShown_def potentialIds_def eval_nat_numeral)
  have u1: "potentialIds [1, 2, 3, 4] {2} \<noteq> []"
    by (simp add: potentialIds_def)
  have v1: "idsToFetch [0, 1] [1, 2, 3, 4] {2} = [4, 3, 1]"
    by (simp add: idsToFetch_def candidateIds_def resetShown_def potentialIds_def
        shuffleArray_def BATCH_SIZE_def eval_nat_numeral)
  have d2: "random_draws (length (candidateIds [1, 2] {1, 2, 9}) - 1) [0]"
    by (simp add: candidateIds_def resetShown_def potentialIds_def eval_nat_numeral)
  have e2: "[1, 2] \<noteq> [] \<and> set [1, 2] \<subseteq> {1, 2, 9 :: int}" by simp
  have v2: "idsToFetch [0] [1, 2] {1, 2, 9} = [2, 1]"
    by (simp add: idsToFetch_def candidateIds_def resetShown_def potentialIds_def
        shuffleArray_def BATCH_SIZE_def eval_nat_numeral)
  from batch_avoids_shown_until_exhaustion[OF d1] u1
  have a: "set (idsToFetch [0, 1] [1, 2, 3, 4] {2}) \<inter> {2} = {}
     \<and> shownAfterReset [1, 2, 3, 4] {2} = {2}" by blast
  from batch_avoids_shown_until_exhaustion[OF d2] e2
  have b: "shownAfterReset [1, 2] {1, 2, 9} = {}
     \<and> length (idsToFetch [0] [1, 2] {1, 2, 9}) = min BATCH_SIZE (length [1, 2 :: int])" by blast
  show ?thesis using d1 u1 v1 a d2 e2 b v2 by blast
qed

text \<open>
  Claim C7. For every pool, shown set and draws, the batch has
  \<open>min BATCH_SIZE (number of candidates)\<close> ids, at most 40, where the candidates are the
  unseen ids of the pool, or the whole pool after the reset.
\<close>

theorem batch_length_is_min:
  "length (idsToFetch js allAvailableIds shown)
     = min BATCH_SIZE (length (candidateIds allAvailableIds shown))
   \<and> length (idsToFetch js allAvailableIds shown) \<le> 40
   \<and> candidateIds allAvailableIds shown
     = (if filter (\<lambda>id. id \<notin> shown) allAvailableIds = [] \<and> allAvailableIds \<noteq> []
        then allAvailableIds else filter (\<lambda>id. id \<notin> shown) allAvailableIds)"
  using length_idsToFetch[of js allAvailableIds shown]
  by (simp add: BATCH_SIZE_def candidateIds_def resetShown_def potentialIds_def)

theorem batch_length_is_min_witness:
  "length (idsToFetch [0, 1] [1, 2, 3, 4] {2}) = min BATCH_SIZE 3
   \<and> candidateIds [1, 2, 3, 4] {2} = [1, 3, 4]
   \<and> length (idsToFetch [0, 1] [1, 2, 3, 4] {2}) = 3"
proof -
  have c: "candidateIds [1, 2, 3, 4] {2} = [1, 3, 4]"
    by (simp add: candidateIds_def resetShown_def potentialIds_def)
  from batch_length_is_min[of "[0, 1]" "[1, 2, 3, 4]" "{2}"] c
  show ?thesis by (simp add: BATCH_SIZE_def)
qed

subsection \<open>The validation of detail records\<close>

lemma keepArticle_toArticle:
  "keepArticle (toArticle languageId page) = usable_page page"
  by (auto simp: keepArticle_def toArticle_def usable_page_def truthy_number_def truthy_string_def
      split: option.splits)

lemma usable_page_toArticle:
  assumes "usable_page page"
  shows "\<exists>a. toArticle languageId page = Some a
          \<and> Some (article_pageid a) = page_pageid page
          \<and> Some (article_title a) = page_title page
          \<and> Some (article_extract a) = page_extract page
          \<and> Some (article_url a) = page_canonicalurl page
          \<and> article_thumbnail a = page_thumbnail page"
  using assms
  by (auto simp: toArticle_def usable_page_def truthy_number_def truthy_string_def
      split: option.splits)

lemma kept_articles:
  "map Some (concat (map (\<lambda>article. case article of None \<Rightarrow> [] | Some a \<Rightarrow> [a])
               (filter keepArticle (map (toArticle languageId) pages))))
   = map (toArticle languageId) (filter usable_page pages)"
proof (induction pages)
  case Nil
  then show ?case by simp
next
  case (Cons page pages)
  show ?case
  proof (cases "usable_page page")
    case True
    then obtain a where "toArticle languageId page = Some a"
      using usable_page_toArticle by blast
    then show ?thesis using True Cons.IH keepArticle_toArticle[of languageId page] by simp
  next
    case False
    then show ?thesis using Cons.IH keepArticle_toArticle[of languageId page] by simp
  qed
qed

lemma fetchArticleDetails_resolved:
  assumes "pageIds \<noteq> []" "details_error data = None"
  shows "map Some (fetchArticleDetails languageId pageIds (Resolved data))
         = map (toArticle languageId) (filter usable_page (responsePages data))"
  using assms kept_articles[of languageId "responsePages data"]
  by (simp add: fetchArticleDetails_def responsePages_def Let_def)

lemma pageids_of_usable:
  "map (\<lambda>a. Some (article_pageid a)) as = map page_pageid ps"
  if "map Some as = map (toArticle languageId) ps" "\<forall>p \<in> set ps. usable_page p"
  using that
proof (induction ps arbitrary: as)
  case Nil
  then show ?case by simp
next
  case (Cons p ps)
  then obtain a as' where as: "as = a # as'" by (cases as) auto
  with Cons.prems have "toArticle languageId p = Some a" "map Some as' = map (toArticle languageId) ps"
    by simp_all
  moreover have "usable_page p" using Cons.prems by simp
  ultimately show ?case using Cons.IH[of as'] Cons.prems(2) as usable_page_toArticle[of p languageId]
    by auto
qed

text \<open>
  Claim C8, as amended. For every response of the detail call without an error payload,
  to a request for at least one id, \<^verbatim>\<open>fetchArticleDetails\<close> returns exactly one article
  per page of the response whose page identifier is present and not \<open>0\<close> and whose title,
  extract, canonical URL and thumbnail source are present and not empty; it drops every
  other page, and a response without pages yields no article. In particular a response
  with one such page and one page without a thumbnail, enumerated in either order,
  yields exactly one article. The pages are read as \<^verbatim>\<open>Object.values\<close> enumerates them
  (\<open>responsePages\<close>); the articles follow that enumeration.
\<close>

theorem details_keep_usable_pages:
  assumes "pageIds \<noteq> []" "details_error data = None"
  shows "map Some (fetchArticleDetails languageId pageIds (Resolved data))
           = map (toArticle languageId) (filter usable_page (responsePages data))
       \<and> map (\<lambda>a. Some (article_pageid a)) (fetchArticleDetails languageId pageIds (Resolved data))
           = map page_pageid (filter usable_page (responsePages data))
       \<and> length (fetchArticleDetails languageId pageIds (Resolved data))
           = length (filter usable_page (responsePages data))
       \<and> (\<forall>p q. (responsePages data = [p, q] \<or> responsePages data = [q, p])
              \<and> usable_page p \<and> page_thumbnail q = None
            \<longrightarrow> length (fetchArticleDetails languageId pageIds (Resolved data)) = 1)
       \<and> (details_pages data = None
            \<longrightarrow> fetchArticleDetails languageId pageIds (Resolved data) = [])"
proof -
  note eq = fetchArticleDetails_resolved[OF assms, of languageId]
  have ids: "map (\<lambda>a. Some (article_pageid a)) (fetchArticleDetails languageId pageIds (Resolved data))
           = map page_pageid (filter usable_page (responsePages data))"
    using pageids_of_usable[OF eq] by simp
  have len: "length (fetchArticleDetails languageId pageIds (Resolved data))
           = length (filter usable_page (responsePages data))"
    using arg_cong[OF eq, of length] by simp
  have two: "\<forall>p q. (responsePages data = [p, q] \<or> responsePages data = [q, p])
              \<and> usable_page p \<and> page_thumbnail q = None
            \<longrightarrow> length (fetchArticleDetails languageId pageIds (Resolved data)) = 1"
    using len by (auto simp: usable_page_def)
  have none: "details_pages data = None
            \<longrightarrow> fetchArticleDetails languageId pageIds (Resolved data) = []"
    using len by (auto simp: responsePages_def)
  from eq ids len two none show ?thesis by blast
qed

theorem details_keep_usable_pages_witness:
  "[10, 11] \<noteq> ([] :: int list)
   \<and> usable_page page10 \<and> page_thumbnail page11 = None
   \<and> length (fetchArticleDetails ''en'' [10, 11]
        (Resolved \<lparr> details_error = None, details_pages = Some [page10, page11] \<rparr>)) = 1
   \<and> fetchArticleDetails ''en'' [10, 11]
        (Resolved \<lparr> details_error = None, details_pages = Some [page10, page11] \<rparr>) = [article10]
   \<and> fetchArticleDetails ''en'' [10, 11]
        (Resolved \<lparr> details_error = None, details_pages = None \<rparr>) = []"
proof -
  have u: "usable_page page10"
    by (simp add: usable_page_def page10_def force_thumbnail_def truthy_number_def truthy_string_def)
  have t: "page_thumbnail page11 = None" by (simp add: page11_def)
  have ne: "[10, 11] \<noteq> ([] :: int list)" by simp
  have v: "fetchArticleDetails ''en'' [10, 11]
        (Resolved \<lparr> details_error = None, details_pages = Some [page10, page11] \<rparr>) = [article10]"
    by (simp add: fetchArticleDetails_def toArticle_def keepArticle_def truthy_number_def
        truthy_string_def page10_def page11_def article10_def force_thumbnail_def)
  have e: "details_error \<lparr> details_error = None, details_pages = Some [page10, page11] \<rparr> = None"
    by simp
  have p: "responsePages \<lparr> details_error = None, details_pages = Some [page10, page11] \<rparr>
      = [page10, page11]" by (simp add: responsePages_def)
  from details_keep_usable_pages[OF ne e, of "''en''"] p u t
  have one: "length (fetchArticleDetails ''en'' [10, 11]
        (Resolved \<lparr> details_error = None, details_pages = Some [page10, page11] \<rparr>)) = 1"
    by blast
  have e': "details_error \<lparr> details_error = None, details_pages = None \<rparr> = None" by simp
  have p': "details_pages \<lparr> details_error = None, details_pages = None \<rparr> = None" by simp
  from details_keep_usable_pages[OF ne e', of "''en''"] p'
  have "fetchArticleDetails ''en'' [10, 11]
        (Resolved \<lparr> details_error = None, details_pages = None \<rparr>) = []"
    by blast
  with one show ?thesis using u t ne v by blast
qed

text \<open>
  Claim C8, as stated, fails: page 12 has all five fields, its extract being the empty
  string, and no article is returned for it; and page 10, which has all five fields, is
  dropped when the response carries an error payload beside it.
\<close>

theorem page_with_empty_extract_is_dropped:
  "has_all_fields page12
   \<and> fetchArticleDetails ''en'' [12]
       (Resolved \<lparr> details_error = None, details_pages = Some [page12] \<rparr>) = []
   \<and> has_all_fields page10
   \<and> fetchArticleDetails ''en'' [10]
       (Resolved \<lparr> details_error = Some maxlag_error, details_pages = Some [page10] \<rparr>) = []"
  by (simp add: has_all_fields_def fetchArticleDetails_def toArticle_def keepArticle_def
      truthy_number_def truthy_string_def page12_def page10_def force_thumbnail_def)

subsection \<open>The production cycle and the shown set\<close>

lemma shownPageIds_processPool:
  "shownPageIds (fst (processPool forBuffer languageId js allAvailableIds response s))
     = shownAfterReset allAvailableIds (shownPageIds s)
       \<union> set (idsToFetch js allAvailableIds (shownPageIds s))"
proof (cases "allAvailableIds = []")
  case True
  then show ?thesis
    by (simp add: processPool_def shownAfterReset_def resetShown_def idsToFetch_def
        candidateIds_def potentialIds_def shuffleArray_def)
next
  case False
  then show ?thesis by (simp add: processPool_def Let_def)
qed

lemma processPool_no_articles:
  assumes "fetchArticleDetails languageId (idsToFetch js allAvailableIds (shownPageIds s)) response = []"
  shows "articles (fst (processPool forBuffer languageId js allAvailableIds response s)) = articles s
       \<and> buffer (fst (processPool forBuffer languageId js allAvailableIds response s)) = buffer s
       \<and> snd (processPool forBuffer languageId js allAvailableIds response s) = False"
  using assms by (simp add: processPool_def Let_def)

text \<open>
  Claim C1, as amended. In every production cycle the ids of the selected batch are added
  to the shown set after \<^verbatim>\<open>fetchArticleDetails\<close> has returned, whether it returned
  articles or the empty list of a failed fetch. So none of them is among the unseen ids
  of the next cycle, whatever its pool. When the detail fetch returns no article, the
  displayed list and the buffer are unchanged.
\<close>

theorem attempted_ids_marked_shown:
  "shownPageIds (fst (processPool forBuffer languageId js allAvailableIds response s))
     = shownAfterReset allAvailableIds (shownPageIds s)
       \<union> set (idsToFetch js allAvailableIds (shownPageIds s))
   \<and> set (idsToFetch js allAvailableIds (shownPageIds s)) \<inter>
       set (potentialIds nextPool
              (shownPageIds (fst (processPool forBuffer languageId js allAvailableIds response s))))
     = {}
   \<and> (fetchArticleDetails languageId (idsToFetch js allAvailableIds (shownPageIds s)) response = []
      \<longrightarrow> articles (fst (processPool forBuffer languageId js allAvailableIds response s)) = articles s
        \<and> buffer (fst (processPool forBuffer languageId js allAvailableIds response s)) = buffer s)"
proof (intro conjI impI)
  show sh: "shownPageIds (fst (processPool forBuffer languageId js allAvailableIds response s))
     = shownAfterReset allAvailableIds (shownPageIds s)
       \<union> set (idsToFetch js allAvailableIds (shownPageIds s))"
    by (rule shownPageIds_processPool)
  show "set (idsToFetch js allAvailableIds (shownPageIds s)) \<inter>
       set (potentialIds nextPool
              (shownPageIds (fst (processPool forBuffer languageId js allAvailableIds response s))))
     = {}"
    unfolding sh by (auto simp: potentialIds_def)
next
  assume e: "fetchArticleDetails languageId (idsToFetch js allAvailableIds (shownPageIds s)) response = []"
  from processPool_no_articles[OF e]
  show "articles (fst (processPool forBuffer languageId js allAvailableIds response s)) = articles s"
    and "buffer (fst (processPool forBuffer languageId js allAvailableIds response s)) = buffer s"
    by simp_all
qed

lemmas pool_eval =
  processPool_def idsToFetch_def candidateIds_def shownAfterReset_def resetShown_def
  potentialIds_def shuffleArray_def fetchArticleDetails_def BATCH_SIZE_def initial_hook_def Let_def

theorem attempted_ids_marked_shown_witness:
  "fetchArticleDetails ''en'' (idsToFetch [] [7] (shownPageIds initial_hook)) Rejected = []
   \<and> shownPageIds (fst (processPool True ''en'' [] [7] Rejected initial_hook)) = {7}
   \<and> buffer (fst (processPool True ''en'' [] [7] Rejected initial_hook)) = []
   \<and> set (idsToFetch [] [7] (shownPageIds initial_hook)) \<inter>
       set (potentialIds [7, 8] (shownPageIds (fst (processPool True ''en'' [] [7] Rejected initial_hook))))
     = {}"
proof -
  have f: "fetchArticleDetails ''en'' (idsToFetch [] [7] (shownPageIds initial_hook)) Rejected = []"
    by (simp add: pool_eval)
  have i: "idsToFetch [] [7] (shownPageIds initial_hook) = [7]"
    and r: "shownAfterReset [7] (shownPageIds initial_hook) = {}"
    and b: "buffer initial_hook = []"
    by (simp_all add: pool_eval)
  note main = attempted_ids_marked_shown[of True "''en''" "[]" "[7]" Rejected initial_hook "[7, 8]"]
  from main f have "buffer (fst (processPool True ''en'' [] [7] Rejected initial_hook)) = buffer initial_hook"
    by blast
  moreover from main have "shownPageIds (fst (processPool True ''en'' [] [7] Rejected initial_hook))
     = shownAfterReset [7] (shownPageIds initial_hook) \<union> set (idsToFetch [] [7] (shownPageIds initial_hook))"
    by blast
  moreover from main have "set (idsToFetch [] [7] (shownPageIds initial_hook)) \<inter>
       set (potentialIds [7, 8] (shownPageIds (fst (processPool True ''en'' [] [7] Rejected initial_hook))))
     = {}" by blast
  ultimately show ?thesis using f i r b by simp
qed

text \<open>
  Claim C1, as stated, fails: the pool is \<open>[7]\<close>, nothing is shown, and the detail fetch
  is rejected. No article arrives, id 7 is in the shown set after the cycle, and a next
  cycle with the pool \<open>[7, 8]\<close> can select 8 only.
\<close>

theorem failed_detail_fetch_marks_ids_shown:
  "idsToFetch [] [7] (shownPageIds initial_hook) = [7]
   \<and> fetchArticleDetails ''en'' [7] Rejected = []
   \<and> shownPageIds (fst (processPool True ''en'' [] [7] Rejected initial_hook)) = {7}
   \<and> articles (fst (processPool True ''en'' [] [7] Rejected initial_hook)) = []
   \<and> buffer (fst (processPool True ''en'' [] [7] Rejected initial_hook)) = []
   \<and> idsToFetch [] [7, 8]
        (shownPageIds (fst (processPool True ''en'' [] [7] Rejected initial_hook))) = [8]"
  by (simp add: pool_eval)

subsection \<open>The consumer call\<close>

lemma getMoreArticles_buffer:
  assumes "buffer s \<noteq> []"
  shows "getMoreArticles targetCategories s =
           fetchAndProcessArticles_enter targetCategories True
             (s\<lparr>articles := articles s @ buffer s, buffer := []\<rparr>)"
  using assms by (simp add: getMoreArticles_def)

lemma getMoreArticles_moves_buffer:
  assumes "buffer s \<noteq> []"
  shows "articles (fst (getMoreArticles targetCategories s)) = articles s @ buffer s
       \<and> buffer (fst (getMoreArticles targetCategories s)) = []
       \<and> snd (getMoreArticles targetCategories s)
           = (if loading s \<or> targetCategories = [] then None else Some True)
       \<and> loading (fst (getMoreArticles targetCategories s)) = (loading s \<or> targetCategories \<noteq> [])
       \<and> shownPageIds (fst (getMoreArticles targetCategories s)) = shownPageIds s"
  using assms
  by (auto simp: getMoreArticles_buffer fetchAndProcessArticles_enter_def)

text \<open>
  The resolver leaves the displayed list, the buffer and the loading flag alone.
\<close>

lemma fcm_start_display:
  "buffer (step_hook (fcm_start categoryName memberType s)) = buffer s"
  "loading (step_hook (fcm_start categoryName memberType s)) = loading s"
  "articles (step_hook (fcm_start categoryName memberType s)) = articles s"
  by (simp_all add: fcm_start_def Let_def setStatus_def issue_def split: option.splits)

lemma fcm_settled_display:
  "buffer (fcm_finally n m s) = buffer s" "loading (fcm_finally n m s) = loading s"
  "articles (fcm_finally n m s) = articles s"
  "buffer (fcm_catch n m s) = buffer s" "loading (fcm_catch n m s) = loading s"
  "articles (fcm_catch n m s) = articles s"
  "buffer (storeMembers m n v s) = buffer s" "loading (storeMembers m n v s) = loading s"
  "articles (storeMembers m n v s) = articles s"
  by (cases m; simp add: fcm_finally_def fcm_catch_def setStatus_def storeMembers_def)+

lemma fcm_resume_display:
  "buffer (step_hook (fcm_resume c response s)) = buffer s"
  "loading (step_hook (fcm_resume c response s)) = loading s"
  "articles (step_hook (fcm_resume c response s)) = articles s"
  by (cases response;
      simp add: fcm_resume_def Let_def fcm_settled_display setStatus_def issue_def
        split: option.splits)+

text \<open>
  While the buffer holds articles no cycle is loading, and a target category is given:
  the buffer is filled only at the end of a cycle, in the step that clears the loading
  flag, and every start of a cycle finds or leaves the buffer empty.
\<close>

lemma reachable_buffer_idle:
  assumes "reachable targetCategories s"
  shows "buffer s \<noteq> [] \<longrightarrow> \<not> loading s \<and> targetCategories \<noteq> []"
  using assms
proof (induction rule: reachable.induct)
  case first_render
  then show ?case by (simp add: initial_hook_def)
next
  case (effect s)
  then show ?case by (simp add: mountEffect_def fetchAndProcessArticles_enter_def)
next
  case (consumer_call s)
  then show ?case by (simp add: getMoreArticles_def fetchAndProcessArticles_enter_def)
next
  case (cycle_end s forBuffer languageId js allAvailableIds response)
  then show ?case by (simp add: processPool_def Let_def)
next
  case (resolver_start s categoryName memberType)
  then show ?case by (simp add: fcm_start_display)
next
  case (resolver_step s c response)
  then show ?case by (simp add: fcm_resume_display)
qed

text \<open>
  Claim C9. In every state of the hook with a non-empty buffer, \<^verbatim>\<open>getMoreArticles\<close>
  appends the buffered articles, in their order, to the end of the displayed list, whose
  former content stays as its prefix, leaves the buffer empty and starts a buffered
  production cycle: the call \<^verbatim>\<open>fetchAndProcessArticles(true)\<close> passes its guard and sets
  the loading flag.
\<close>

theorem advance_swaps_buffer_and_refills:
  assumes "reachable targetCategories s" "buffer s \<noteq> []"
  shows "articles (fst (getMoreArticles targetCategories s)) = articles s @ buffer s
       \<and> buffer (fst (getMoreArticles targetCategories s)) = []
       \<and> take (length (articles s)) (articles (fst (getMoreArticles targetCategories s))) = articles s
       \<and> snd (getMoreArticles targetCategories s) = Some True
       \<and> loading (fst (getMoreArticles targetCategories s))
       \<and> shownPageIds (fst (getMoreArticles targetCategories s)) = shownPageIds s"
proof -
  from reachable_buffer_idle[OF assms(1)] assms(2)
  have idle: "\<not> loading s" "targetCategories \<noteq> []" by simp_all
  from getMoreArticles_moves_buffer[OF assms(2), of targetCategories] idle
  show ?thesis by simp
qed

theorem advance_swaps_buffer_and_refills_witness:
  "reachable [''Category:Physics'']
     (fst (processPool True ''en'' [] [10] reply10
        (fst (processPool False ''en'' [] [10] reply10
           (mountEffect [''Category:Physics''] initial_hook)))))
   \<and> articles (fst (processPool True ''en'' [] [10] reply10
        (fst (processPool False ''en'' [] [10] reply10
           (mountEffect [''Category:Physics''] initial_hook))))) = [article10]
   \<and> buffer (fst (processPool True ''en'' [] [10] reply10
        (fst (processPool False ''en'' [] [10] reply10
           (mountEffect [''Category:Physics''] initial_hook))))) = [article10]
   \<and> articles (fst (getMoreArticles [''Category:Physics'']
        (fst (processPool True ''en'' [] [10] reply10
           (fst (processPool False ''en'' [] [10] reply10
              (mountEffect [''Category:Physics''] initial_hook))))))) = [article10, article10]
   \<and> buffer (fst (getMoreArticles [''Category:Physics'']
        (fst (processPool True ''en'' [] [10] reply10
           (fst (processPool False ''en'' [] [10] reply10
              (mountEffect [''Category:Physics''] initial_hook))))))) = []
   \<and> snd (getMoreArticles [''Category:Physics'']
        (fst (processPool True ''en'' [] [10] reply10
           (fst (processPool False ''en'' [] [10] reply10
              (mountEffect [''Category:Physics''] initial_hook)))))) = Some True"
proof -
  let ?cats = "[''Category:Physics'']"
  let ?s1 = "mountEffect ?cats initial_hook"
  let ?s2 = "fst (processPool False ''en'' [] [10] reply10 ?s1)"
  let ?s3 = "fst (processPool True ''en'' [] [10] reply10 ?s2)"
  have c: "length ?cats > 0" by simp
  have r1: "reachable ?cats ?s1" by (rule reachable.effect) (rule reachable.first_render)
  have r2: "reachable ?cats ?s2" using r1 c by (rule reachable.cycle_end)
  have r3: "reachable ?cats ?s3" using r2 c by (rule reachable.cycle_end)
  have page: "fetchArticleDetails ''en'' [10] reply10 = [article10]"
    by (simp add: fetchArticleDetails_def reply10_def toArticle_def keepArticle_def
        truthy_number_def truthy_string_def page10_def article10_def force_thumbnail_def)
  have s1: "articles ?s1 = [] \<and> buffer ?s1 = [] \<and> shownPageIds ?s1 = {}"
    by (simp add: mountEffect_def fetchAndProcessArticles_enter_def initial_hook_def)
  have ids2: "idsToFetch [] [10] (shownPageIds ?s1) = [10]"
    using s1 by (simp add: idsToFetch_def candidateIds_def resetShown_def potentialIds_def
        shuffleArray_def BATCH_SIZE_def)
  have s2: "articles ?s2 = [article10] \<and> buffer ?s2 = [] \<and> shownPageIds ?s2 = {10}"
    using s1 ids2 page
    by (simp add: processPool_def Let_def shownAfterReset_def resetShown_def potentialIds_def)
  have ids3: "idsToFetch [] [10] (shownPageIds ?s2) = [10]"
    using s2 by (simp add: idsToFetch_def candidateIds_def resetShown_def potentialIds_def
        shuffleArray_def BATCH_SIZE_def)
  have s3: "articles ?s3 = [article10] \<and> buffer ?s3 = [article10]"
    using s2 ids3 page by (simp add: processPool_def Let_def)
  then have b: "buffer ?s3 \<noteq> []" by simp
  from advance_swaps_buffer_and_refills[OF r3 b] s3
  show ?thesis using r3 by simp
qed

end
